theory Spec2Isabelle
  imports Main "HOL-Library.Word" "HOL-Library.Finite_Map" "HOL-Library.List_Lexorder"
    "HOL-Library.AList"
begin

section \<open>JavaScript strings and values\<close>

text \<open>
  A JavaScript string is a sequence of 16-bit code units. String constants of the
  source are written with \<open>js\<close>, which lifts an ASCII literal to code units.
\<close>

type_synonym jschar = "16 word"
type_synonym jsstring = "jschar list"

definition js :: "string \<Rightarrow> jsstring" where
  "js s = map of_char s"

text \<open>
  The values that flow through the save manager are the values \<open>JSON.parse\<close> can
  produce. A number \<open>JNum m e\<close> stands for \<open>m / 10 ^ e\<close>, kept exactly; an integer
  is \<open>JNum n 0\<close>. The rounding of binary64 and the exponent notation that
  \<open>Number.prototype.toString\<close> uses for very large and very small magnitudes are
  outside this model; byte values (0..255) are inside it. An object keeps its
  properties in creation order, with distinct keys.
\<close>

datatype json =
    JNull
  | JBool bool
  | JNum int nat
  | JStr jsstring
  | JArr "json list"
  | JObj "(jsstring \<times> json) list"

datatype js_error =
    InvalidCharacterError
  | SyntaxError
  | TypeError
  | RangeError
  | QuotaExceededError
  | VersionError
  | DOMException jsstring
  | Error jsstring
  | ErrnoError nat

subsection \<open>Property enumeration order\<close>

text \<open>
  \<open>for ... in\<close>, \<open>Object.keys\<close> and \<open>JSON.stringify\<close> visit the own properties of an
  object in the order of OrdinaryOwnPropertyKeys: array indices (canonical numeric
  strings below \<open>2^32 - 1\<close>) in ascending numeric order, then the other string keys
  in creation order.
\<close>

definition is_digit :: "jschar \<Rightarrow> bool" where
  "is_digit c = (0x30 \<le> c \<and> c \<le> 0x39)"

definition digit_val :: "jschar \<Rightarrow> nat" where
  "digit_val c = unat c - 48"

definition digits_val :: "jsstring \<Rightarrow> nat" where
  "digits_val s = foldl (\<lambda>acc c. 10 * acc + digit_val c) 0 s"

definition is_array_index :: "jsstring \<Rightarrow> bool" where
  "is_array_index s =
     (s \<noteq> [] \<and> list_all is_digit s \<and> (hd s \<noteq> 0x30 \<or> length s = 1)
      \<and> digits_val s < 2 ^ 32 - 1)"

definition own_props :: "(jsstring \<times> json) list \<Rightarrow> (jsstring \<times> json) list" where
  "own_props ps =
     sort_key (\<lambda>(k, v). digits_val k) (filter (\<lambda>(k, v). is_array_index k) ps)
     @ filter (\<lambda>(k, v). \<not> is_array_index k) ps"

subsection \<open>Numbers to text\<close>

function show_nat :: "nat \<Rightarrow> nat list" where
  "show_nat n = (if n < 10 then [48 + n] else show_nat (n div 10) @ [48 + n mod 10])"
  by pat_completeness auto
termination
  by (relation "measure id") auto

declare show_nat.simps [simp del]

definition show_num :: "int \<Rightarrow> nat \<Rightarrow> nat list" where
  "show_num m e =
     (let a = nat \<bar>m\<bar>; ip = a div 10 ^ e; fp = a mod 10 ^ e
      in (if m < 0 then [45] else [])
         @ show_nat ip
         @ (if e = 0 then []
            else 46 # replicate (e - length (show_nat fp)) 48 @ show_nat fp))"

subsection \<open>\<open>JSON.stringify\<close>\<close>

text \<open>
  QuoteJSONString: the quotation mark and the reverse solidus are escaped, the
  control characters below U+0020 are written with their short escape or as
  \<open>\u00xx\<close>, a surrogate that is not part of a pair is written as \<open>\udxxx\<close>
  (well-formed \<open>JSON.stringify\<close>), every other code unit is copied.
\<close>

definition hex_digit :: "nat \<Rightarrow> jschar" where
  "hex_digit n = (if n < 10 then of_nat (48 + n) else of_nat (87 + n))"

definition unicode_escape :: "jschar \<Rightarrow> jsstring" where
  "unicode_escape c =
     (let n = unat c
      in [0x5C, 0x75, hex_digit (n div 4096), hex_digit (n div 256 mod 16),
          hex_digit (n div 16 mod 16), hex_digit (n mod 16)])"

definition is_high_surrogate :: "jschar \<Rightarrow> bool" where
  "is_high_surrogate c = (0xD800 \<le> c \<and> c \<le> 0xDBFF)"

definition is_low_surrogate :: "jschar \<Rightarrow> bool" where
  "is_low_surrogate c = (0xDC00 \<le> c \<and> c \<le> 0xDFFF)"

definition quote_unit :: "jschar \<Rightarrow> jsstring" where
  "quote_unit c =
     (if c = 0x22 then [0x5C, 0x22]
      else if c = 0x5C then [0x5C, 0x5C]
      else if c = 0x08 then [0x5C, 0x62]
      else if c = 0x0C then [0x5C, 0x66]
      else if c = 0x0A then [0x5C, 0x6E]
      else if c = 0x0D then [0x5C, 0x72]
      else if c = 0x09 then [0x5C, 0x74]
      else if c < 0x20 then unicode_escape c
      else [c])"

fun quote_units :: "jsstring \<Rightarrow> jsstring" where
  "quote_units [] = []"
| "quote_units [c] =
     (if is_high_surrogate c \<or> is_low_surrogate c then unicode_escape c else quote_unit c)"
| "quote_units (c # d # cs) =
     (if is_high_surrogate c then
        (if is_low_surrogate d then c # d # quote_units cs
         else unicode_escape c @ quote_units (d # cs))
      else if is_low_surrogate c then unicode_escape c @ quote_units (d # cs)
      else quote_unit c @ quote_units (d # cs))"

definition QuoteJSONString :: "jsstring \<Rightarrow> jsstring" where
  "QuoteJSONString s = 0x22 # quote_units s @ [0x22]"

fun join_commas :: "jsstring list \<Rightarrow> jsstring" where
  "join_commas [] = []"
| "join_commas [x] = x"
| "join_commas (x # y # ys) = x @ 0x2C # join_commas (y # ys)"

lemma set_own_props: "set (own_props ps) = set ps"
  by (auto simp: own_props_def)

lemma size_prop_less:
  "(k, v) \<in> set ps \<Longrightarrow> size v < Suc (size_list (\<lambda>x. Suc (size (snd x))) ps)"
  by (induction ps) auto

function JSON_stringify :: "json \<Rightarrow> jsstring" where
  "JSON_stringify JNull = js ''null''"
| "JSON_stringify (JBool b) = (if b then js ''true'' else js ''false'')"
| "JSON_stringify (JNum m e) = map of_nat (show_num m e)"
| "JSON_stringify (JStr s) = QuoteJSONString s"
| "JSON_stringify (JArr xs) = 0x5B # join_commas (map JSON_stringify xs) @ [0x5D]"
| "JSON_stringify (JObj ps) =
     0x7B # join_commas (map (\<lambda>(k, v). QuoteJSONString k @ 0x3A # JSON_stringify v)
                             (own_props ps)) @ [0x7D]"
  by pat_completeness auto
termination
  by (relation "measure size") (auto simp: set_own_props size_prop_less less_Suc_eq_le size_list_estimation')

declare JSON_stringify.simps [simp del]

subsection \<open>\<open>btoa\<close>\<close>

text \<open>
  \<open>btoa\<close> raises InvalidCharacterError when a code unit is above U+00FF; otherwise
  the code units are taken as bytes and written in base64 with \<open>=\<close> padding.
\<close>

definition b64_char :: "nat \<Rightarrow> nat" where
  "b64_char n =
     (if n < 26 then 65 + n
      else if n < 52 then 71 + n
      else if n < 62 then n - 4
      else if n = 62 then 43
      else 47)"

fun b64_encode :: "nat list \<Rightarrow> nat list" where
  "b64_encode [] = []"
| "b64_encode [a] = [b64_char (a div 4), b64_char (a mod 4 * 16), 61, 61]"
| "b64_encode [a, b] =
     [b64_char (a div 4), b64_char (a mod 4 * 16 + b div 16), b64_char (b mod 16 * 4), 61]"
| "b64_encode (a # b # c # r) =
     [b64_char (a div 4), b64_char (a mod 4 * 16 + b div 16),
      b64_char (b mod 16 * 4 + c div 64), b64_char (c mod 64)] @ b64_encode r"

definition btoa :: "jsstring \<Rightarrow> js_error + jsstring" where
  "btoa s =
     (if list_ex (\<lambda>c. 0xFF < c) s then Inl InvalidCharacterError
      else Inr (map of_nat (b64_encode (map unat s))))"

subsection \<open>\<open>atob\<close>\<close>

text \<open>
  \<open>atob\<close> is the forgiving base64 decoder: ASCII whitespace is removed; when the
  length is then a multiple of four, one or two trailing \<open>=\<close> are removed; a
  length that leaves remainder one, or a character outside the alphabet, raises
  InvalidCharacterError; the bits left over after the last whole byte are dropped.
\<close>

definition b64_val :: "nat \<Rightarrow> nat option" where
  "b64_val c =
     (if 65 \<le> c \<and> c \<le> 90 then Some (c - 65)
      else if 97 \<le> c \<and> c \<le> 122 then Some (c - 71)
      else if 48 \<le> c \<and> c \<le> 57 then Some (c + 4)
      else if c = 43 then Some 62
      else if c = 47 then Some 63
      else None)"

fun b64_decode :: "nat list \<Rightarrow> nat list option" where
  "b64_decode [] = Some []"
| "b64_decode [w] = None"
| "b64_decode [w, x] = Some [w * 4 + x div 16]"
| "b64_decode [w, x, y] = Some [w * 4 + x div 16, x mod 16 * 16 + y div 4]"
| "b64_decode (w # x # y # z # r) =
     map_option (\<lambda>bs. [w * 4 + x div 16, x mod 16 * 16 + y div 4, y mod 4 * 64 + z] @ bs)
       (b64_decode r)"

text \<open>\<open>b64_body\<close> is the encoding without its padding, as \<open>atob\<close> sees it after stripping.\<close>

fun b64_body :: "nat list \<Rightarrow> nat list" where
  "b64_body [] = []"
| "b64_body [a] = [b64_char (a div 4), b64_char (a mod 4 * 16)]"
| "b64_body [a, b] =
     [b64_char (a div 4), b64_char (a mod 4 * 16 + b div 16), b64_char (b mod 16 * 4)]"
| "b64_body (a # b # c # r) =
     [b64_char (a div 4), b64_char (a mod 4 * 16 + b div 16),
      b64_char (b mod 16 * 4 + c div 64), b64_char (c mod 64)] @ b64_body r"

definition is_ascii_whitespace :: "nat \<Rightarrow> bool" where
  "is_ascii_whitespace c = (c = 9 \<or> c = 10 \<or> c = 12 \<or> c = 13 \<or> c = 32)"

definition strip_padding :: "nat list \<Rightarrow> nat list" where
  "strip_padding s =
     (if length s mod 4 = 0 then
        (case rev s of
           a # b # r \<Rightarrow> if a = 61 then (if b = 61 then rev r else rev (b # r)) else s
         | _ \<Rightarrow> s)
      else s)"

fun those_vals :: "nat list \<Rightarrow> nat list option" where
  "those_vals [] = Some []"
| "those_vals (c # cs) =
     (case b64_val c of
        None \<Rightarrow> None
      | Some v \<Rightarrow> map_option (\<lambda>vs. v # vs) (those_vals cs))"

definition atob :: "jsstring \<Rightarrow> js_error + jsstring" where
  "atob s =
     (let d = strip_padding (filter (\<lambda>c. \<not> is_ascii_whitespace c) (map unat s))
      in case those_vals d of
           None \<Rightarrow> Inl InvalidCharacterError
         | Some vs \<Rightarrow>
             (case b64_decode vs of
                None \<Rightarrow> Inl InvalidCharacterError
              | Some bs \<Rightarrow> Inr (map of_nat bs)))"

subsection \<open>\<open>JSON.parse\<close>\<close>

text \<open>
  The JSON grammar of ECMA-404, as \<open>JSON.parse\<close> reads it: whitespace is space, tab,
  line feed and carriage return; a string holds any code unit from U+0020 on except
  the quotation mark and the reverse solidus, and the escapes
  \<open>\" \\ \/ \b \f \n \r \t \uXXXX\<close>; a number is
  \<open>-? (0 | [1-9][0-9]*) (. [0-9]+)? ([eE] [+-]? [0-9]+)?\<close>. A key that occurs again
  in an object keeps its first position and takes the last value.
\<close>

definition is_json_ws :: "jschar \<Rightarrow> bool" where
  "is_json_ws c = (c = 0x20 \<or> c = 0x09 \<or> c = 0x0A \<or> c = 0x0D)"

definition skip_ws :: "jsstring \<Rightarrow> jsstring" where
  "skip_ws s = dropWhile is_json_ws s"

definition hex_val :: "jschar \<Rightarrow> nat option" where
  "hex_val c =
     (if 0x30 \<le> c \<and> c \<le> 0x39 then Some (unat c - 48)
      else if 0x61 \<le> c \<and> c \<le> 0x66 then Some (unat c - 87)
      else if 0x41 \<le> c \<and> c \<le> 0x46 then Some (unat c - 55)
      else None)"

definition hex4 :: "jschar \<Rightarrow> jschar \<Rightarrow> jschar \<Rightarrow> jschar \<Rightarrow> jschar option" where
  "hex4 a b c d =
     (case (hex_val a, hex_val b, hex_val c, hex_val d) of
        (Some h1, Some h2, Some h3, Some h4) \<Rightarrow>
          Some (of_nat (h1 * 4096 + h2 * 256 + h3 * 16 + h4))
      | _ \<Rightarrow> None)"

definition simple_escape :: "jschar \<Rightarrow> jschar option" where
  "simple_escape e =
     (if e = 0x22 then Some 0x22
      else if e = 0x5C then Some 0x5C
      else if e = 0x2F then Some 0x2F
      else if e = 0x62 then Some 0x08
      else if e = 0x66 then Some 0x0C
      else if e = 0x6E then Some 0x0A
      else if e = 0x72 then Some 0x0D
      else if e = 0x74 then Some 0x09
      else None)"

text \<open>\<open>parse_string_body\<close> reads the characters after the opening quotation mark.\<close>

fun parse_string_body :: "jsstring \<Rightarrow> (jsstring \<times> jsstring) option" where
  "parse_string_body [] = None"
| "parse_string_body (c # cs) =
     (if c = 0x22 then Some ([], cs)
      else if c = 0x5C then
        (case cs of
           [] \<Rightarrow> None
         | e # r \<Rightarrow>
             if e = 0x75 then
               (case r of
                  h1 # h2 # h3 # h4 # r' \<Rightarrow>
                    (case hex4 h1 h2 h3 h4 of
                       None \<Rightarrow> None
                     | Some u \<Rightarrow> map_option (\<lambda>(t, rest). (u # t, rest)) (parse_string_body r'))
                | _ \<Rightarrow> None)
             else
               (case simple_escape e of
                  None \<Rightarrow> None
                | Some u \<Rightarrow> map_option (\<lambda>(t, rest). (u # t, rest)) (parse_string_body r)))
      else if c < 0x20 then None
      else map_option (\<lambda>(t, rest). (c # t, rest)) (parse_string_body cs))"

lemma parse_string_body_shorter:
  "parse_string_body s = Some (t, r) \<Longrightarrow> length r < length s"
  by (induction s arbitrary: t r rule: parse_string_body.induct)
     (fastforce split: if_splits list.splits option.splits)+

lemma length_skip_ws: "length (skip_ws s) \<le> length s"
  by (simp add: skip_ws_def length_dropWhile_le)

definition parse_frac :: "jsstring \<Rightarrow> (jsstring \<times> jsstring) option" where
  "parse_frac s =
     (case s of
        [] \<Rightarrow> Some ([], [])
      | c # r \<Rightarrow>
          if c = 0x2E then
            (if takeWhile is_digit r = [] then None
             else Some (takeWhile is_digit r, dropWhile is_digit r))
          else Some ([], s))"

definition parse_sign :: "jsstring \<Rightarrow> int \<times> jsstring" where
  "parse_sign s =
     (case s of
        [] \<Rightarrow> (1, [])
      | c # r \<Rightarrow> if c = 0x2B then (1, r) else if c = 0x2D then (- 1, r) else (1, s))"

definition parse_exp :: "jsstring \<Rightarrow> (int \<times> jsstring) option" where
  "parse_exp s =
     (case s of
        [] \<Rightarrow> Some (0, [])
      | c # r \<Rightarrow>
          if c = 0x65 \<or> c = 0x45 then
            (case parse_sign r of
               (sg, r1) \<Rightarrow>
                 if takeWhile is_digit r1 = [] then None
                 else Some (sg * int (digits_val (takeWhile is_digit r1)),
                            dropWhile is_digit r1))
          else Some (0, s))"

fun strip_zeros :: "int \<Rightarrow> nat \<Rightarrow> json" where
  "strip_zeros m 0 = JNum m 0"
| "strip_zeros m (Suc e) = (if m mod 10 = 0 then strip_zeros (m div 10) e else JNum m (Suc e))"

definition make_num :: "bool \<Rightarrow> jsstring \<Rightarrow> jsstring \<Rightarrow> int \<Rightarrow> json" where
  "make_num neg ip fp x =
     (let m = int (digits_val (ip @ fp));
          sm = (if neg then - m else m);
          f = int (length fp)
      in if f \<le> x then JNum (sm * 10 ^ nat (x - f)) 0 else strip_zeros sm (nat (f - x)))"

definition parse_unsigned :: "bool \<Rightarrow> jsstring \<Rightarrow> (json \<times> jsstring) option" where
  "parse_unsigned neg s =
     (case s of
        [] \<Rightarrow> None
      | c # r \<Rightarrow>
          if \<not> is_digit c then None
          else
            (let ip = (if c = 0x30 then [c] else takeWhile is_digit s);
                 s2 = (if c = 0x30 then r else dropWhile is_digit s)
             in case parse_frac s2 of
                  None \<Rightarrow> None
                | Some (fp, s3) \<Rightarrow>
                    (case parse_exp s3 of
                       None \<Rightarrow> None
                     | Some (x, s4) \<Rightarrow> Some (make_num neg ip fp x, s4))))"

definition parse_number :: "jsstring \<Rightarrow> (json \<times> jsstring) option" where
  "parse_number s =
     (case s of
        [] \<Rightarrow> None
      | c # r \<Rightarrow> if c = 0x2D then parse_unsigned True r else parse_unsigned False s)"

definition obj_cons :: "jsstring \<Rightarrow> json \<Rightarrow> (jsstring \<times> json) list \<Rightarrow> (jsstring \<times> json) list" where
  "obj_cons k v ps =
     (k, case map_of ps k of None \<Rightarrow> v | Some v' \<Rightarrow> v') # filter (\<lambda>(k', x). k' \<noteq> k) ps"

datatype mode = Value | Elements | Members

text \<open>
  \<open>parse Value\<close> reads one value at the head of the text, \<open>parse Elements\<close> the
  elements of an array after its bracket up to the closing bracket, and
  \<open>parse Members\<close> the members of an object after its brace up to the closing brace.
  Each returns the text that follows. The comparisons of lengths hold whenever they
  are reached (a value is never empty); they make the recursion well-founded.
\<close>

function parse :: "mode \<Rightarrow> jsstring \<Rightarrow> (json \<times> jsstring) option" where
  "parse Value s =
     (case s of
        [] \<Rightarrow> None
      | c # cs \<Rightarrow>
          if c = 0x7B then
            (case skip_ws cs of
               [] \<Rightarrow> None
             | d # r \<Rightarrow> if d = 0x7D then Some (JObj [], r) else parse Members cs)
          else if c = 0x5B then
            (case skip_ws cs of
               [] \<Rightarrow> None
             | d # r \<Rightarrow> if d = 0x5D then Some (JArr [], r) else parse Elements cs)
          else if c = 0x22 then map_option (\<lambda>(t, r). (JStr t, r)) (parse_string_body cs)
          else if take 4 s = js ''true'' then Some (JBool True, drop 4 s)
          else if take 5 s = js ''false'' then Some (JBool False, drop 5 s)
          else if take 4 s = js ''null'' then Some (JNull, drop 4 s)
          else parse_number s)"
| "parse Elements s =
     (case parse Value (skip_ws s) of
        None \<Rightarrow> None
      | Some (v, r) \<Rightarrow>
          if length r < length s then
            (case skip_ws r of
               [] \<Rightarrow> None
             | d # r' \<Rightarrow>
                 if d = 0x2C then
                   (case parse Elements r' of
                      Some (JArr vs, r'') \<Rightarrow> Some (JArr (v # vs), r'')
                    | _ \<Rightarrow> None)
                 else if d = 0x5D then Some (JArr [v], r')
                 else None)
          else None)"
| "parse Members s =
     (case skip_ws s of
        [] \<Rightarrow> None
      | q # r0 \<Rightarrow>
          if q \<noteq> 0x22 then None
          else
            (case parse_string_body r0 of
               None \<Rightarrow> None
             | Some (k, r1) \<Rightarrow>
                 (case skip_ws r1 of
                    [] \<Rightarrow> None
                  | col # r2 \<Rightarrow>
                      if col \<noteq> 0x3A then None
                      else
                        (case parse Value (skip_ws r2) of
                           None \<Rightarrow> None
                         | Some (v, r3) \<Rightarrow>
                             if length r3 < length s then
                               (case skip_ws r3 of
                                  [] \<Rightarrow> None
                                | d # r4 \<Rightarrow>
                                    if d = 0x2C then
                                      (case parse Members r4 of
                                         Some (JObj ps, r5) \<Rightarrow> Some (JObj (obj_cons k v ps), r5)
                                       | _ \<Rightarrow> None)
                                    else if d = 0x7D then Some (JObj [(k, v)], r4)
                                    else None)
                             else None))))"
  by pat_completeness auto

lemma skip_ws_cons_shorter: "skip_ws y = c # r \<Longrightarrow> length r < length y"
  using length_skip_ws [of y] by simp

termination parse
proof (relation "measure (\<lambda>(m, s). 2 * length s + (if m = Value then 0 else 1))", goal_cases)
  case 1
  show ?case by simp
next
  case 2
  then show ?case by simp
next
  case 3
  then show ?case by simp
next
  case (4 s)
  then show ?case using length_skip_ws [of s] by simp
next
  case 5
  then show ?case by (auto dest!: skip_ws_cons_shorter)
next
  case (6 s c r0 x k r1 col r2)
  then show ?case
    using length_skip_ws [of r2]
    by (auto dest!: skip_ws_cons_shorter parse_string_body_shorter)
next
  case 7
  then show ?case by (auto dest!: skip_ws_cons_shorter)
qed

declare parse.simps [simp del]

definition JSON_parse :: "jsstring \<Rightarrow> json option" where
  "JSON_parse text =
     (case parse Value (skip_ws text) of
        None \<Rightarrow> None
      | Some (v, r) \<Rightarrow> if skip_ws r = [] then Some v else None)"

section \<open>The snapshot codec\<close>

text \<open>
  \<open>serialize\<close> is \<open>btoa(JSON.stringify(files))\<close>; the exception of \<open>btoa\<close> escapes
  it. \<open>deserialize\<close> is \<open>JSON.parse(atob(str))\<close> inside a \<open>try\<close> whose handler returns
  \<open>null\<close>.
\<close>

definition serialize :: "json \<Rightarrow> js_error + jsstring" where
  "serialize files = btoa (JSON_stringify files)"

definition deserialize :: "jsstring \<Rightarrow> json" where
  "deserialize str =
     (case atob str of
        Inl e \<Rightarrow> JNull
      | Inr text \<Rightarrow> (case JSON_parse text of None \<Rightarrow> JNull | Some v \<Rightarrow> v))"

section \<open>The virtual filesystem\<close>

text \<open>
  The save manager works on Emscripten's in-memory filesystem through its \<open>FS\<close>
  object. The model is a tree: a regular file holds its bytes and its permission
  bits, a directory maps names to nodes. Symbolic links, devices, mounts and
  permission checks are not modelled, and the working directory is the root.
  Errors are the \<open>errno\<close> values of \<open>FS.ErrnoError\<close>.
\<close>

datatype node = File "nat list" nat | Dir "(jsstring, node) fmap"

definition EEXIST :: nat where "EEXIST = 20"
definition EINVAL :: nat where "EINVAL = 28"
definition EISDIR :: nat where "EISDIR = 31"
definition ENOENT :: nat where "ENOENT = 44"
definition ENOTDIR :: nat where "ENOTDIR = 54"

subsection \<open>Paths\<close>

text \<open>\<open>split_on c s\<close> is \<open>s.split(c)\<close> for a one-character separator.\<close>

fun split_on :: "jschar \<Rightarrow> jsstring \<Rightarrow> jsstring list" where
  "split_on c [] = [[]]"
| "split_on c (x # xs) =
     (if x = c then [] # split_on c xs
      else (case split_on c xs of [] \<Rightarrow> [[x]] | t # ts \<Rightarrow> (x # t) # ts))"

text \<open>
  \<open>FS.lookupPath\<close> splits a path at the slashes, drops the empty segments and
  normalises the rest: \<open>.\<close> is dropped and \<open>..\<close> cancels the segment before it
  (\<open>PATH.normalizeArray\<close>, which scans from the right and stays below the root).
\<close>

fun normalize_rev :: "nat \<Rightarrow> jsstring list \<Rightarrow> jsstring list" where
  "normalize_rev up [] = []"
| "normalize_rev up (p # ps) =
     (if p = js ''.'' then normalize_rev up ps
      else if p = js ''..'' then normalize_rev (Suc up) ps
      else if 0 < up then normalize_rev (up - 1) ps
      else normalize_rev 0 ps @ [p])"

definition resolve :: "jsstring \<Rightarrow> jsstring list" where
  "resolve path = normalize_rev 0 (rev (filter (\<lambda>p. p \<noteq> []) (split_on 0x2F path)))"

subsection \<open>Operations of \<open>FS\<close>\<close>

fun lookup :: "node \<Rightarrow> jsstring list \<Rightarrow> nat + node" where
  "lookup n [] = Inr n"
| "lookup (File c m) (p # ps) = Inl ENOTDIR"
| "lookup (Dir d) (p # ps) =
     (case fmlookup d p of None \<Rightarrow> Inl ENOENT | Some ch \<Rightarrow> lookup ch ps)"

text \<open>
  \<open>mknod root ps new\<close> creates the node \<open>new\<close> at the path \<open>ps\<close>: the parent must
  resolve, be a directory, and not have the name yet.
\<close>

fun mknod :: "node \<Rightarrow> jsstring list \<Rightarrow> node \<Rightarrow> nat + node" where
  "mknod n [] new = Inl EINVAL"
| "mknod (File c m) (p # ps) new = Inl ENOTDIR"
| "mknod (Dir d) [p] new =
     (case fmlookup d p of None \<Rightarrow> Inr (Dir (fmupd p new d)) | Some ch \<Rightarrow> Inl EEXIST)"
| "mknod (Dir d) (p # q # ps) new =
     (case fmlookup d p of
        None \<Rightarrow> Inl ENOENT
      | Some ch \<Rightarrow>
          (case mknod ch (q # ps) new of
             Inl e \<Rightarrow> Inl e
           | Inr ch' \<Rightarrow> Inr (Dir (fmupd p ch' d))))"

fun remove_file :: "node \<Rightarrow> jsstring list \<Rightarrow> nat + node" where
  "remove_file n [] = Inl ENOENT"
| "remove_file (File c m) (p # ps) = Inl ENOTDIR"
| "remove_file (Dir d) [p] =
     (case fmlookup d p of
        None \<Rightarrow> Inl ENOENT
      | Some (Dir d') \<Rightarrow> Inl EISDIR
      | Some (File c m) \<Rightarrow> Inr (Dir (fmdrop p d)))"
| "remove_file (Dir d) (p # q # ps) =
     (case fmlookup d p of
        None \<Rightarrow> Inl ENOENT
      | Some ch \<Rightarrow>
          (case remove_file ch (q # ps) of
             Inl e \<Rightarrow> Inl e
           | Inr ch' \<Rightarrow> Inr (Dir (fmupd p ch' d))))"

definition FS_mkdir :: "node \<Rightarrow> jsstring \<Rightarrow> nat + node" where
  "FS_mkdir fs path = mknod fs (resolve path) (Dir fmempty)"

definition FS_unlink :: "node \<Rightarrow> jsstring \<Rightarrow> nat + node" where
  "FS_unlink fs path = remove_file fs (resolve path)"

definition analyzePath_exists :: "node \<Rightarrow> jsstring \<Rightarrow> bool" where
  "analyzePath_exists fs path =
     (path \<noteq> [] \<and> (case lookup fs (resolve path) of Inl e \<Rightarrow> False | Inr n \<Rightarrow> True))"

text \<open>
  \<open>FS.createDataFile(parent, name, data, true, true, true)\<close>: the path is
  \<open>parent/name\<close> (the parent alone when the name is empty); the mode of a file that
  can be read and written is \<open>0777\<close>, that is 511.
\<close>

definition FS_createDataFile :: "node \<Rightarrow> jsstring \<Rightarrow> jsstring \<Rightarrow> nat list \<Rightarrow> nat + node" where
  "FS_createDataFile fs parent name data =
     mknod fs (resolve (if name = [] then parent else parent @ 0x2F # name)) (File data 511)"

section \<open>Collecting the save files\<close>

definition SKIP_PATHS :: "jsstring list" where
  "SKIP_PATHS = [js ''/Data.rsdk'']"

definition startsWith :: "jsstring \<Rightarrow> jsstring \<Rightarrow> bool" where
  "startsWith s q = (take (length q) s = q)"

definition is_skipped :: "jsstring \<Rightarrow> bool" where
  "is_skipped fullPath =
     list_ex (\<lambda>p. fullPath = p \<or> startsWith fullPath (p @ js ''/'')) SKIP_PATHS"

lemma sorted_list_of_fmap_mem:
  "(name, ch) \<in> set (sorted_list_of_fmap d) \<Longrightarrow> (name, ch) \<in> fset (fset_of_fmap d)"
  by (auto simp: sorted_list_of_fmap_def fset_of_fmap.rep_eq set_of_map_def fmlookup_dom'_iff)

lemma size_fmap_child:
  assumes "(name, ch) \<in> set (sorted_list_of_fmap d)"
  shows "size ch < size (Dir d)"
proof -
  let ?A = "fset (fset_of_fmap d)"
  let ?f = "\<lambda>x. Suc (case x of (a, x) \<Rightarrow> size x)"
  have "(name, ch) \<in> ?A"
    using assms by (rule sorted_list_of_fmap_mem)
  then have "?f (name, ch) \<le> sum ?f ?A"
    by (intro member_le_sum) auto
  then show ?thesis by simp
qed

text \<open>
  \<open>walk\<close> follows the inner function of \<open>collectSaveFiles\<close>. The node is the one
  that \<open>path\<close> names: \<open>FS.readdir(path)\<close> lists its entries (after \<open>.\<close> and \<open>..\<close>,
  which the loop skips) and \<open>FS.stat(fullPath)\<close> finds the entry itself. On a
  regular file \<open>FS.readdir\<close> raises and the handler leaves \<open>files\<close> as it is.
  The value stored for a file is \<open>Array.from(FS.read(stream, stat.size, 0))\<close>;
  what that expression yields for a file with given contents is the parameter
  \<open>rd\<close>, \<open>None\<close> when \<open>FS.open\<close> or \<open>FS.read\<close> raises and the entry is skipped.
  The order in which a directory lists its entries is not specified; the model
  lists them sorted by name.
\<close>

function walk ::
  "(nat list \<Rightarrow> json option) \<Rightarrow> node \<Rightarrow> jsstring \<Rightarrow> (jsstring \<times> json) list
     \<Rightarrow> (jsstring \<times> json) list" where
  "walk rd (File c m) path files = files"
| "walk rd (Dir d) path files =
     fold (\<lambda>(name, ch) files.
             if name = js ''.'' \<or> name = js ''..'' then files
             else
               (let p = (if path = [] then js ''/'' else path);
                    fullPath = (if p = js ''/'' then js ''/'' @ name else p @ js ''/'' @ name)
                in if is_skipped fullPath then files
                   else
                     (case ch of
                        Dir d' \<Rightarrow> walk rd ch fullPath files
                      | File c m \<Rightarrow>
                          (case rd c of
                             None \<Rightarrow> files
                           | Some v \<Rightarrow> AList.update fullPath v files))))
          (sorted_list_of_fmap d) files"
  by pat_completeness auto
termination
  by (relation "measure (\<lambda>(rd, n, path, files). size n)") (auto dest: size_fmap_child)

definition collectSaveFiles :: "(nat list \<Rightarrow> json option) \<Rightarrow> node \<Rightarrow> json" where
  "collectSaveFiles rd fs = JObj (walk rd fs (js ''/'') [])"

section \<open>Restoring the save files\<close>

subsection \<open>Enumerating a value, \<open>new Uint8Array\<close>\<close>

text \<open>
  \<open>for (const path in files)\<close> visits the own enumerable properties of the value:
  the properties of an object, the indices of an array or of a string, nothing
  for the other primitives.
\<close>

definition index_key :: "nat \<Rightarrow> jsstring" where
  "index_key i = map of_nat (show_nat i)"

definition enum_props :: "json \<Rightarrow> (jsstring \<times> json) list" where
  "enum_props v =
     (case v of
        JObj ps \<Rightarrow> own_props ps
      | JArr xs \<Rightarrow> zip (map index_key [0..<length xs]) xs
      | JStr s \<Rightarrow> zip (map index_key [0..<length s]) (map (\<lambda>c. JStr [c]) s)
      | _ \<Rightarrow> [])"

text \<open>
  \<open>new Uint8Array(v)\<close>: an array gives one byte per element (ToNumber, then
  ToUint8); an object without iterator is read as array-like through its
  \<open>length\<close>; a primitive is a length (ToIndex) of zero bytes. ToNumber of a
  string, an array or an object goes through string conversion and is left to the
  parameter \<open>to_number\<close> of the engine. Running out of memory is not modelled.
\<close>

datatype number = Finite int nat | NaN | PosInfinity | NegInfinity

record engine =
  to_number :: "json \<Rightarrow> number"

definition js_truncate :: "int \<Rightarrow> nat \<Rightarrow> int" where
  "js_truncate m e = sgn m * (\<bar>m\<bar> div 10 ^ e)"

definition ToNumber :: "engine \<Rightarrow> json option \<Rightarrow> number" where
  "ToNumber eng v =
     (case v of
        None \<Rightarrow> NaN
      | Some JNull \<Rightarrow> Finite 0 0
      | Some (JBool b) \<Rightarrow> Finite (if b then 1 else 0) 0
      | Some (JNum m e) \<Rightarrow> Finite m e
      | Some x \<Rightarrow> to_number eng x)"

definition ToUint8 :: "number \<Rightarrow> nat" where
  "ToUint8 n = (case n of Finite m e \<Rightarrow> nat (js_truncate m e mod 256) | _ \<Rightarrow> 0)"

definition ToIndex :: "number \<Rightarrow> js_error + nat" where
  "ToIndex n =
     (case n of
        NaN \<Rightarrow> Inr 0
      | Finite m e \<Rightarrow>
          if js_truncate m e < 0 \<or> 2 ^ 53 - 1 < js_truncate m e then Inl RangeError
          else Inr (nat (js_truncate m e))
      | _ \<Rightarrow> Inl RangeError)"

definition ToLength :: "number \<Rightarrow> nat" where
  "ToLength n =
     (case n of
        Finite m e \<Rightarrow> nat (min (js_truncate m e) (2 ^ 53 - 1))
      | PosInfinity \<Rightarrow> 2 ^ 53 - 1
      | _ \<Rightarrow> 0)"

definition new_Uint8Array :: "engine \<Rightarrow> json \<Rightarrow> js_error + nat list" where
  "new_Uint8Array eng v =
     (case v of
        JArr xs \<Rightarrow> Inr (map (\<lambda>x. ToUint8 (ToNumber eng (Some x))) xs)
      | JObj ps \<Rightarrow>
          Inr (map (\<lambda>i. ToUint8 (ToNumber eng (map_of ps (index_key i))))
                 [0..<ToLength (ToNumber eng (map_of ps (js ''length'')))])
      | _ \<Rightarrow>
          (case ToIndex (ToNumber eng (Some v)) of
             Inl e \<Rightarrow> Inl e
           | Inr n \<Rightarrow> Inr (replicate n 0)))"

subsection \<open>String operations of the restore loop\<close>

fun lastIndexOf :: "jsstring \<Rightarrow> jschar \<Rightarrow> int" where
  "lastIndexOf [] c = - 1"
| "lastIndexOf (x # xs) c =
     (if 0 \<le> lastIndexOf xs c then lastIndexOf xs c + 1 else if x = c then 0 else - 1)"

definition substring :: "jsstring \<Rightarrow> int \<Rightarrow> int \<Rightarrow> jsstring" where
  "substring s a b =
     (let n = int (length s);
          a' = max 0 (min a n);
          b' = max 0 (min b n)
      in take (nat (max a' b' - min a' b')) (drop (nat (min a' b')) s))"

subsection \<open>\<open>restoreSaveFiles\<close>\<close>

text \<open>
  \<open>mkdirs\<close> is the loop over the segments of the parent directory: the path so
  far grows by one segment, \<open>FS.mkdir\<close> is tried, \<open>errno\<close> 20 is passed over and
  any other error leaves the loop. The result is the filesystem reached and the
  error that ended the loop, if any.
\<close>

fun mkdirs :: "node \<Rightarrow> jsstring \<Rightarrow> jsstring list \<Rightarrow> node \<times> nat option" where
  "mkdirs fs cur [] = (fs, None)"
| "mkdirs fs cur (p # ps) =
     (case FS_mkdir fs (cur @ 0x2F # p) of
        Inr fs' \<Rightarrow> mkdirs fs' (cur @ 0x2F # p) ps
      | Inl e \<Rightarrow> if e \<noteq> 20 then (fs, Some e) else mkdirs fs (cur @ 0x2F # p) ps)"

text \<open>
  One round of the loop of \<open>restoreSaveFiles\<close>. Whatever raises inside the \<open>try\<close>
  ends the round; what was changed before stays changed.
\<close>

definition restore_entry :: "engine \<Rightarrow> node \<Rightarrow> jsstring \<times> json \<Rightarrow> node" where
  "restore_entry eng fs entry =
     (case entry of
        (path, v) \<Rightarrow>
          (let d = substring path 0 (lastIndexOf path 0x2F);
               dir = (if d = [] then js ''/'' else d);
               name = substring path (lastIndexOf path 0x2F + 1) (int (length path))
           in case (if dir \<noteq> js ''/''
                    then mkdirs fs [] (filter (\<lambda>p. p \<noteq> []) (split_on 0x2F dir))
                    else (fs, None)) of
                (fs1, Some e) \<Rightarrow> fs1
              | (fs1, None) \<Rightarrow>
                  (case new_Uint8Array eng v of
                     Inl e \<Rightarrow> fs1
                   | Inr data \<Rightarrow>
                       (case (if analyzePath_exists fs1 path then FS_unlink fs1 path
                              else Inr fs1) of
                          Inl e \<Rightarrow> fs1
                        | Inr fs2 \<Rightarrow>
                            (case FS_createDataFile fs2 dir name data of
                               Inl e \<Rightarrow> fs2
                             | Inr fs3 \<Rightarrow> fs3)))))"

definition restoreSaveFiles :: "engine \<Rightarrow> node \<Rightarrow> json \<Rightarrow> node" where
  "restoreSaveFiles eng fs files = fold (\<lambda>entry fs. restore_entry eng fs entry) (enum_props files) fs"

section \<open>The host and the storage backends\<close>

definition STORAGE_KEY :: jsstring where "STORAGE_KEY = js ''sonic1_wasm_save''"
definition IDB_VERSION :: nat where "IDB_VERSION = 2"

text \<open>
  \<open>localStorage\<close> maps string keys to string values and raises QuotaExceededError
  when a write would take the stored code units above the quota of the origin.
\<close>

record storage =
  items :: "(jsstring \<times> jsstring) list"
  quota :: nat

definition usage :: "(jsstring \<times> jsstring) list \<Rightarrow> nat" where
  "usage kvs = sum_list (map (\<lambda>(k, v). length k + length v) kvs)"

definition setItem :: "storage \<Rightarrow> jsstring \<Rightarrow> jsstring \<Rightarrow> js_error + storage" where
  "setItem st k v =
     (if quota st < usage (AList.update k v (items st)) then Inl QuotaExceededError
      else Inr (st\<lparr>items := AList.update k v (items st)\<rparr>))"

definition getItem :: "storage \<Rightarrow> jsstring \<Rightarrow> jsstring option" where
  "getItem st k = map_of (items st) k"

text \<open>
  The IndexedDB factory holds the database \<open>sonic1_wasm_saves\<close>, if it exists, with
  its version and its object store \<open>savedata\<close>, if that exists. What the host may
  do to an operation is part of the state: refuse to open the database, raise
  when a transaction is started, or fail a transaction or a request afterwards.
\<close>

record database =
  db_version :: nat
  db_store :: "(jsstring \<times> jsstring) list option"

record idb_factory =
  idb_database :: "database option"
  idb_open_error :: "js_error option"
  idb_tx_throws :: "js_error option"
  idb_tx_error :: "js_error option"

text \<open>
  \<open>idb.open(IDB_NAME, IDB_VERSION)\<close>. A database that is missing or older is
  brought to the version asked for; the upgrade creates the object store only
  when the request has the \<open>onupgradeneeded\<close> handler of \<open>saveToIndexedDB\<close>
  (\<open>handler\<close>). A newer database fails with VersionError.
\<close>

definition idb_open :: "bool \<Rightarrow> idb_factory \<Rightarrow> js_error + database" where
  "idb_open handler f =
     (case idb_open_error f of
        Some e \<Rightarrow> Inl e
      | None \<Rightarrow>
          (case idb_database f of
             None \<Rightarrow>
               Inr \<lparr>db_version = IDB_VERSION, db_store = (if handler then Some [] else None)\<rparr>
           | Some db \<Rightarrow>
               if IDB_VERSION < db_version db then Inl VersionError
               else if db_version db < IDB_VERSION then
                 Inr \<lparr>db_version = IDB_VERSION,
                      db_store = (if handler \<and> db_store db = None then Some [] else db_store db)\<rparr>
               else Inr db))"

record host =
  FS :: node
  FS_read :: "nat list \<Rightarrow> json option"
  js_engine :: engine
  indexedDB :: "idb_factory option"
  localStorage :: "storage option"
  alerts :: "jsstring list"
  downloads :: "(jsstring \<times> jsstring) list"
  today :: jsstring

text \<open>
  \<open>getIndexedDB\<close> returns the first defined among \<open>indexedDB\<close> and its prefixed
  names; the field \<open>indexedDB\<close> of the host stands for that value.
\<close>

definition getIndexedDB :: "host \<Rightarrow> idb_factory option" where
  "getIndexedDB h = indexedDB h"

text \<open>
  A storage operation ends by calling one of its two continuations. The result of
  the model is the host afterwards and the call made: \<open>Inr\<close> for \<open>onSuccess\<close> with
  its argument, \<open>Inl\<close> for \<open>onError\<close> with the error.
\<close>

definition saveToLocalStorage :: "host \<Rightarrow> json \<Rightarrow> host \<times> (js_error + unit)" where
  "saveToLocalStorage h files =
     (case serialize files of
        Inl e \<Rightarrow> (h, Inl e)
      | Inr str \<Rightarrow>
          if 4 * 1024 * 1024 < length str then
            (h, Inl (Error (js ''Save data too large for localStorage (~5MB limit)'')))
          else
            (case localStorage h of
               None \<Rightarrow> (h, Inl TypeError)
             | Some st \<Rightarrow>
                 (case setItem st STORAGE_KEY str of
                    Inl e \<Rightarrow> (h, Inl e)
                  | Inr st' \<Rightarrow> (h\<lparr>localStorage := Some st'\<rparr>, Inr ()))))"

definition loadFromLocalStorage :: "host \<Rightarrow> host \<times> (js_error + json)" where
  "loadFromLocalStorage h =
     (case localStorage h of
        None \<Rightarrow> (h, Inl TypeError)
      | Some st \<Rightarrow>
          (case getItem st STORAGE_KEY of
             None \<Rightarrow> (h, Inr JNull)
           | Some str \<Rightarrow> (h, Inr (if str \<noteq> [] then deserialize str else JNull))))"

definition saveToIndexedDB :: "host \<Rightarrow> json \<Rightarrow> host \<times> (js_error + unit)" where
  "saveToIndexedDB h files =
     (case getIndexedDB h of
        None \<Rightarrow> saveToLocalStorage h files
      | Some idb \<Rightarrow>
          (case idb_open True idb of
             Inl e \<Rightarrow> (h, Inl e)
           | Inr db \<Rightarrow>
               (let h1 = h\<lparr>indexedDB := Some (idb\<lparr>idb_database := Some db\<rparr>)\<rparr>
                in case db_store db of
                     None \<Rightarrow> (h1, Inl (Error (js ''Object store not found'')))
                   | Some kvs \<Rightarrow>
                       (case idb_tx_throws idb of
                          Some e \<Rightarrow> (h1, Inl e)
                        | None \<Rightarrow>
                            (case serialize files of
                               Inl e \<Rightarrow> (h1, Inl e)
                             | Inr str \<Rightarrow>
                                 (case idb_tx_error idb of
                                    Some e \<Rightarrow> (h1, Inl e)
                                  | None \<Rightarrow>
                                      (h\<lparr>indexedDB := Some (idb\<lparr>idb_database :=
                                           Some (db\<lparr>db_store :=
                                             Some (AList.update STORAGE_KEY str kvs)\<rparr>)\<rparr>)\<rparr>,
                                       Inr ())))))))"

definition loadFromIndexedDB :: "host \<Rightarrow> host \<times> (js_error + json)" where
  "loadFromIndexedDB h =
     (case getIndexedDB h of
        None \<Rightarrow> loadFromLocalStorage h
      | Some idb \<Rightarrow>
          (case idb_open False idb of
             Inl e \<Rightarrow> (h, Inl e)
           | Inr db \<Rightarrow>
               (let h1 = h\<lparr>indexedDB := Some (idb\<lparr>idb_database := Some db\<rparr>)\<rparr>
                in case db_store db of
                     None \<Rightarrow> (h1, Inr JNull)
                   | Some kvs \<Rightarrow>
                       (case idb_tx_throws idb of
                          Some e \<Rightarrow> (h1, Inr JNull)
                        | None \<Rightarrow>
                            (case idb_tx_error idb of
                               Some e \<Rightarrow> (h1, Inl e)
                             | None \<Rightarrow>
                                 (case map_of kvs STORAGE_KEY of
                                    None \<Rightarrow> (h1, Inr JNull)
                                  | Some str \<Rightarrow>
                                      (h1, Inr (if str \<noteq> [] then deserialize str
                                                else JNull))))))))"

section \<open>Export, import, preload and autosave\<close>

definition Object_keys :: "json \<Rightarrow> jsstring list" where
  "Object_keys v = map fst (enum_props v)"

definition truthy :: "json \<Rightarrow> bool" where
  "truthy v =
     (case v of
        JNull \<Rightarrow> False
      | JBool b \<Rightarrow> b
      | JNum m e \<Rightarrow> m \<noteq> 0
      | JStr s \<Rightarrow> s \<noteq> []
      | _ \<Rightarrow> True)"

definition typeof_object :: "json \<Rightarrow> bool" where
  "typeof_object v = (case v of JNull \<Rightarrow> True | JArr xs \<Rightarrow> True | JObj ps \<Rightarrow> True | _ \<Rightarrow> False)"

text \<open>
  \<open>exportSave\<close>: with no collected file it alerts and returns; otherwise it offers
  the encoded snapshot for download under a name with the date. The exception of
  \<open>serialize\<close> is not caught here and is the \<open>Inl\<close> result.
\<close>

definition exportSave :: "host \<Rightarrow> js_error + host" where
  "exportSave h =
     (let files = collectSaveFiles (FS_read h) (FS h)
      in if length (Object_keys files) = 0 then
           Inr (h\<lparr>alerts := alerts h @ [js ''No save data to export.'']\<rparr>)
         else
           (case serialize files of
              Inl e \<Rightarrow> Inl e
            | Inr str \<Rightarrow>
                Inr (h\<lparr>downloads := downloads h
                        @ [(js ''sonic1-save-'' @ today h @ js ''.bin'', str)]\<rparr>)))"

text \<open>
  \<open>importSave\<close>: the argument \<open>file\<close> is what the \<open>FileReader\<close> delivers, the text
  of the file or its read error. The result is the host afterwards and the
  continuation called.
\<close>

definition importSave :: "host \<Rightarrow> js_error + jsstring \<Rightarrow> host \<times> (js_error + unit)" where
  "importSave h file =
     (case file of
        Inl e \<Rightarrow> (h, Inl e)
      | Inr text \<Rightarrow>
          (let data = deserialize text
           in if \<not> truthy data \<or> \<not> typeof_object data then
                (h, Inl (Error (js ''Invalid save file'')))
              else
                saveToIndexedDB (h\<lparr>FS := restoreSaveFiles (js_engine h) (FS h) data\<rparr>) data))"

text \<open>The function pushed on \<open>Module.preRun\<close>, and \<open>doSave\<close>, which passes no \<open>onError\<close>.\<close>

definition preRun :: "host \<Rightarrow> host" where
  "preRun h =
     (case loadFromIndexedDB h of
        (h1, Inl err) \<Rightarrow> h1
      | (h1, Inr files) \<Rightarrow>
          if truthy files \<and> 0 < length (Object_keys files)
          then h1\<lparr>FS := restoreSaveFiles (js_engine h1) (FS h1) files\<rparr>
          else h1)"

definition doSave :: "host \<Rightarrow> host" where
  "doSave h =
     (let files = collectSaveFiles (FS_read h) (FS h)
      in if 0 < length (Object_keys files) then fst (saveToIndexedDB h files) else h)"

section \<open>Snapshots and example values\<close>

text \<open>
  A snapshot maps paths to byte sequences; as a JavaScript value it is an object
  whose property values are arrays of numbers.
\<close>

definition bytes_json :: "nat list \<Rightarrow> json" where
  "bytes_json bs = JArr (map (\<lambda>b. JNum (int b) 0) bs)"

definition snapshot_json :: "(jsstring \<times> nat list) list \<Rightarrow> json" where
  "snapshot_json S = JObj (map (\<lambda>(p, bs). (p, bytes_json bs)) S)"

text \<open>
  A path of a snapshot is absolute and normalised: it starts with a slash, has at
  least one segment, and no segment is empty, \<open>.\<close> or \<open>..\<close>. The keys of a
  snapshot are distinct and its values are bytes.
\<close>

definition plain_segment :: "jsstring \<Rightarrow> bool" where
  "plain_segment s = (s \<noteq> [] \<and> s \<noteq> js ''.'' \<and> s \<noteq> js ''..'' \<and> 0x2F \<notin> set s)"

definition normalized_path :: "jsstring \<Rightarrow> bool" where
  "normalized_path p =
     (case split_on 0x2F p of
        s # segs \<Rightarrow> s = [] \<and> segs \<noteq> [] \<and> list_all plain_segment segs
      | [] \<Rightarrow> False)"

definition is_snapshot :: "(jsstring \<times> nat list) list \<Rightarrow> bool" where
  "is_snapshot S =
     (distinct (map fst S)
      \<and> list_all (\<lambda>(p, bs). normalized_path p \<and> list_all (\<lambda>b. b < 256) bs) S)"

definition abs_path :: "jsstring list \<Rightarrow> jsstring" where
  "abs_path segs = concat (map (\<lambda>s. 0x2F # s) segs)"

text \<open>
  \<open>mkdirs_parts\<close> is the loop \<open>mkdirs\<close> on resolved paths, and \<open>restore_parts\<close> one
  round of \<open>restoreSaveFiles\<close> on the segments of a normalised path: the directory
  chain, the removal of what exists at the target, the creation of the file.
\<close>

fun mkdirs_parts :: "node \<Rightarrow> jsstring list \<Rightarrow> jsstring list \<Rightarrow> node \<times> nat option" where
  "mkdirs_parts fs pre [] = (fs, None)"
| "mkdirs_parts fs pre (s # todo) =
     (case mknod fs (pre @ [s]) (Dir fmempty) of
        Inr fs' \<Rightarrow> mkdirs_parts fs' (pre @ [s]) todo
      | Inl e \<Rightarrow> if e \<noteq> 20 then (fs, Some e) else mkdirs_parts fs (pre @ [s]) todo)"

definition finish_entry :: "node \<times> nat option \<Rightarrow> jsstring list \<Rightarrow> nat list \<Rightarrow> node" where
  "finish_entry r target bs =
     (case r of
        (fs1, Some e) \<Rightarrow> fs1
      | (fs1, None) \<Rightarrow>
          (case (case lookup fs1 target of
                   Inl e \<Rightarrow> Inr fs1
                 | Inr n \<Rightarrow> remove_file fs1 target) of
             Inl e \<Rightarrow> fs1
           | Inr fs2 \<Rightarrow>
               (case mknod fs2 target (File bs 511) of
                  Inl e \<Rightarrow> fs2
                | Inr fs3 \<Rightarrow> fs3)))"

definition restore_parts :: "node \<Rightarrow> jsstring list \<Rightarrow> jsstring list \<Rightarrow> jsstring \<Rightarrow> nat list \<Rightarrow> node" where
  "restore_parts fs pre segs name bs =
     finish_entry (mkdirs_parts fs pre segs) (pre @ segs @ [name]) bs"

text \<open>
  \<open>place fs segs bs\<close> describes the same round by descent into the tree: a
  missing directory on the way is created, an existing entry on the way is
  entered (a regular file there ends the round with nothing changed below it),
  and at the last segment a directory is left alone while anything else is
  replaced by the new file with mode \<open>0777\<close>.
\<close>

fun place :: "node \<Rightarrow> jsstring list \<Rightarrow> nat list \<Rightarrow> node" where
  "place (File c m) segs bs = File c m"
| "place (Dir d) [] bs = Dir d"
| "place (Dir d) [name] bs =
     (case fmlookup d name of
        Some (Dir d') \<Rightarrow> Dir d
      | _ \<Rightarrow> Dir (fmupd name (File bs 511) d))"
| "place (Dir d) (s # t # u) bs =
     (case fmlookup d s of
        None \<Rightarrow> Dir (fmupd s (place (Dir fmempty) (t # u) bs) d)
      | Some ch \<Rightarrow> Dir (fmupd s (place ch (t # u) bs) d))"

text \<open>
  \<open>clear_way fs segs\<close>: no entry on the way to the target is a regular file and
  the target is not a directory, so that the round can create the file.
\<close>

fun clear_way :: "node \<Rightarrow> jsstring list \<Rightarrow> bool" where
  "clear_way (File c m) segs = False"
| "clear_way (Dir d) [] = False"
| "clear_way (Dir d) [name] = (case fmlookup d name of Some (Dir d') \<Rightarrow> False | _ \<Rightarrow> True)"
| "clear_way (Dir d) (s # t # u) =
     (case fmlookup d s of None \<Rightarrow> True | Some ch \<Rightarrow> clear_way ch (t # u))"

definition place_all :: "(jsstring list \<times> nat list) list \<Rightarrow> node \<Rightarrow> node" where
  "place_all es fs = fold (\<lambda>(p, bs) fs. place fs p bs) es fs"

definition is_dir_at :: "node \<Rightarrow> jsstring list \<Rightarrow> bool" where
  "is_dir_at fs q = (case lookup fs q of Inr (Dir d) \<Rightarrow> True | _ \<Rightarrow> False)"

definition no_skipped_key :: "(jsstring \<times> json) list \<Rightarrow> bool" where
  "no_skipped_key files = (\<forall>k \<in> fst ` set files. \<not> is_skipped k)"

text \<open>Concrete values on which the theorems below are instantiated.\<close>

definition example_engine :: engine where
  "example_engine = \<lparr>to_number = (\<lambda>v. NaN)\<rparr>"

definition example_storage :: storage where
  "example_storage = \<lparr>items = [], quota = 5242880\<rparr>"

definition example_factory :: idb_factory where
  "example_factory =
     \<lparr>idb_database = Some \<lparr>db_version = 2, db_store = None\<rparr>,
      idb_open_error = None, idb_tx_throws = None, idb_tx_error = None\<rparr>"

definition fresh_factory :: idb_factory where
  "fresh_factory =
     \<lparr>idb_database = None, idb_open_error = None, idb_tx_throws = None, idb_tx_error = None\<rparr>"

definition example_read :: "nat list \<Rightarrow> json option" where
  "example_read c = Some (JArr (map (\<lambda>b. JNum (int b) 0) c))"

definition example_host :: host where
  "example_host =
     \<lparr>FS = Dir fmempty, FS_read = example_read,
      js_engine = example_engine, indexedDB = None,
      localStorage = Some example_storage, alerts = [], downloads = [],
      today = js ''2026-01-01''\<rparr>"

definition blocked_fs :: node where
  "blocked_fs = Dir (fmupd (js ''a'') (File [1] 438) fmempty)"

definition example_fs :: node where
  "example_fs =
     Dir (fmupd (js ''Data.rsdk'') (File [1, 2, 3] 511)
         (fmupd (js ''SaveData'') (Dir (fmupd (js ''slot1'') (File [1, 2, 3] 438) fmempty))
          fmempty))"

section \<open>Round trip through base64\<close>

lemma b64_val_char: "n < 64 \<Longrightarrow> b64_val (b64_char n) = Some n"
  by (auto simp: b64_val_def b64_char_def)

lemma b64_char_not_pad: "n < 64 \<Longrightarrow> b64_char n \<noteq> 61"
  by (auto simp: b64_char_def)

lemma b64_char_not_ws: "n < 64 \<Longrightarrow> \<not> is_ascii_whitespace (b64_char n)"
  by (auto simp: b64_char_def is_ascii_whitespace_def)

lemma b64_char_small: "n < 64 \<Longrightarrow> b64_char n < 256"
  by (auto simp: b64_char_def)

lemma length_b64_encode: "length (b64_encode bs) mod 4 = 0"
  by (induction bs rule: b64_encode.induct) auto

lemma b64_encode_Nil_iff: "b64_encode bs = [] \<longleftrightarrow> bs = []"
  by (cases bs rule: b64_encode.cases) auto

lemma strip_padding_group:
  assumes "length g = 4" and "length rest mod 4 = 0" and "rest \<noteq> []"
  shows "strip_padding (g @ rest) = g @ strip_padding rest"
proof -
  from assms(3) have "0 < length rest" by simp
  with assms(2) have "4 \<le> length rest" by presburger
  then have "2 \<le> length (rev rest)" by simp
  then obtain a b r where r: "rev rest = a # b # r"
    by (cases "rev rest"; cases "tl (rev rest)") auto
  then have rest: "rest = rev r @ [b, a]"
    by (metis append.assoc append_Cons append_Nil rev.simps(2) rev_rev_ident)
  have "(length g + length rest) mod 4 = 0"
    using assms(1,2) by presburger
  then show ?thesis
    using assms r by (simp add: strip_padding_def rest)
qed

lemma sextet_bounds:
  fixes a b c :: nat
  assumes "a < 256" and "b < 256" and "c < 256"
  shows "a div 4 < 64" and "a mod 4 * 16 + b div 16 < 64"
    and "b mod 16 * 4 + c div 64 < 64" and "a mod 4 * 16 < 64" and "b mod 16 * 4 < 64"
proof -
  have b: "b div 16 < 16" and c: "c div 64 < 4"
    using assms by simp_all
  have a4: "a mod 4 * 16 \<le> 48" and b16: "b mod 16 * 4 \<le> 60"
    by simp_all
  show "a div 4 < 64" using assms by simp
  show "a mod 4 * 16 + b div 16 < 64" using a4 b by linarith
  show "b mod 16 * 4 + c div 64 < 64" using b16 c by linarith
  show "a mod 4 * 16 < 64" using a4 by linarith
  show "b mod 16 * 4 < 64" using b16 by linarith
qed

lemma sextets_first:
  fixes a b :: nat
  assumes "b < 256"
  shows "a div 4 * 4 + (a mod 4 * 16 + b div 16) div 16 = a"
proof -
  have "b div 16 < 16" using assms by simp
  then have "(a mod 4 * 16 + b div 16) div 16 = a mod 4" by simp
  then show ?thesis by simp
qed

lemma sextets_second:
  fixes a b c :: nat
  assumes "b < 256" and "c < 256"
  shows "(a mod 4 * 16 + b div 16) mod 16 * 16 + (b mod 16 * 4 + c div 64) div 4 = b"
proof -
  have b: "b div 16 < 16" and c: "c div 64 < 4"
    using assms by simp_all
  have "(a mod 4 * 16 + b div 16) mod 16 = b div 16" using b by simp
  moreover have "(b mod 16 * 4 + c div 64) div 4 = b mod 16" using c by simp
  ultimately show ?thesis by simp
qed

lemma sextets_third:
  fixes b c :: nat
  assumes "c < 256"
  shows "(b mod 16 * 4 + c div 64) mod 4 * 64 + c mod 64 = c"
proof -
  have "c div 64 < 4" using assms by simp
  then have "(b mod 16 * 4 + c div 64) mod 4 = c div 64" by simp
  then show ?thesis by simp
qed

lemma strip_padding_encode:
  "\<forall>b \<in> set bs. b < 256 \<Longrightarrow> strip_padding (b64_encode bs) = b64_body bs"
proof (induction bs rule: b64_encode.induct)
  case (4 a b c r)
  have bnd: "c mod 64 < 64" by simp
  show ?case
  proof (cases "r = []")
    case True
    then show ?thesis using b64_char_not_pad [OF bnd] by (simp add: strip_padding_def)
  next
    case False
    then have "b64_encode r \<noteq> []" by (simp add: b64_encode_Nil_iff)
    then show ?thesis
      using 4 strip_padding_group [of "[b64_char (a div 4), b64_char (a mod 4 * 16 + b div 16),
      b64_char (b mod 16 * 4 + c div 64), b64_char (c mod 64)]" "b64_encode r"]
      by (simp add: length_b64_encode)
  qed
next
  case (2 a)
  then have "a < 256" by simp
  from sextet_bounds(4) [OF this this this]
  show ?case using b64_char_not_pad by (simp add: strip_padding_def)
next
  case (3 a b)
  then have "a < 256" "b < 256" by simp_all
  from sextet_bounds(5) [OF this this(1)]
  show ?case using b64_char_not_pad by (simp add: strip_padding_def)
qed (simp add: strip_padding_def)

lemma decode_body:
  "\<forall>b \<in> set bs. b < 256 \<Longrightarrow> \<exists>vs. those_vals (b64_body bs) = Some vs \<and> b64_decode vs = Some bs"
proof (induction bs rule: b64_body.induct)
  case 1
  then show ?case by simp
next
  case (2 a)
  then have "a < 256" by simp
  from sextet_bounds [OF this this this] sextets_first [of 0 a]
  show ?case by (simp add: b64_val_char)
next
  case (3 a b)
  then have ab: "a < 256" "b < 256" by simp_all
  from sextet_bounds [OF ab ab(1)] sextets_first [OF ab(2), of a] sextets_second [of b 0 a] ab
  show ?case by (simp add: b64_val_char)
next
  case (4 a b c r)
  then have abc: "a < 256" "b < 256" "c < 256" by simp_all
  from 4 obtain vs where vs: "those_vals (b64_body r) = Some vs" "b64_decode vs = Some r"
    by auto
  have "c mod 64 < 64" by simp
  with sextet_bounds [OF abc] sextets_first [OF abc(2), of a] sextets_second [OF abc(2,3), of a]
    sextets_third [OF abc(3), of b] vs
  show ?case by (simp add: b64_val_char)
qed

lemma unat_of_nat_small: "x < 256 \<Longrightarrow> unat (of_nat x :: jschar) = x"
  by (simp add: unat_of_nat)

lemma latin1_unat: "\<not> 0xFF < (c :: jschar) \<Longrightarrow> unat c < 256"
  by (simp add: word_less_nat_alt)

lemma pad_not_ws: "\<not> is_ascii_whitespace 61"
  by (simp add: is_ascii_whitespace_def)

lemma b64_encode_chars:
  "\<forall>b \<in> set bs. b < 256 \<Longrightarrow> \<forall>c \<in> set (b64_encode bs). c < 256 \<and> \<not> is_ascii_whitespace c"
proof (induction bs rule: b64_encode.induct)
  case 1
  then show ?case by simp
next
  case (2 a)
  then have "a < 256" by simp
  from sextet_bounds [OF this this this]
  show ?case by (simp add: b64_char_small b64_char_not_ws pad_not_ws)
next
  case (3 a b)
  then have ab: "a < 256" "b < 256" by simp_all
  from sextet_bounds [OF ab ab(1)]
  show ?case by (simp add: b64_char_small b64_char_not_ws pad_not_ws)
next
  case (4 a b c r)
  then have abc: "a < 256" "b < 256" "c < 256" by simp_all
  have "c mod 64 < 64" by simp
  with sextet_bounds [OF abc] 4
  show ?case by (simp add: b64_char_small b64_char_not_ws)
qed

lemma atob_btoa: "btoa s = Inr t \<Longrightarrow> atob t = Inr s"
proof -
  assume a: "btoa s = Inr t"
  define bs where "bs = map unat s"
  from a have lat: "\<forall>c \<in> set s. \<not> 0xFF < c" and t: "t = map of_nat (b64_encode bs)"
    by (auto simp: btoa_def list_ex_iff bs_def split: if_splits)
  have bytes: "\<forall>b \<in> set bs. b < 256"
    using lat by (auto simp: bs_def latin1_unat)
  have "map unat t = b64_encode bs"
    using b64_encode_chars [OF bytes] by (simp add: t unat_of_nat_small map_idI)
  moreover have "filter (\<lambda>c. \<not> is_ascii_whitespace c) (b64_encode bs) = b64_encode bs"
    using b64_encode_chars [OF bytes] by (simp add: filter_id_conv)
  moreover obtain vs where "those_vals (b64_body bs) = Some vs" "b64_decode vs = Some bs"
    using decode_body [OF bytes] by blast
  moreover have "map of_nat bs = s"
    by (simp add: bs_def map_idI)
  ultimately show ?thesis
    by (simp add: atob_def strip_padding_encode [OF bytes])
qed

section \<open>Round trip through JSON\<close>

lemma unat_hex_digit: "k < 16 \<Longrightarrow> unat (hex_digit k) = (if k < 10 then 48 + k else 87 + k)"
  by (simp add: hex_digit_def unat_of_nat del: of_nat_add)

lemma hex_val_digit: "k < 16 \<Longrightarrow> hex_val (hex_digit k) = Some k"
  by (simp add: hex_val_def word_le_nat_alt unat_hex_digit)

lemma hex_places:
  fixes n :: nat
  shows "n div 4096 * 4096 + n div 256 mod 16 * 256 + n div 16 mod 16 * 16 + n mod 16 = n"
proof -
  have a: "n div 4096 = n div 256 div 16" and b: "n div 256 = n div 16 div 16"
    by (simp_all add: div_mult2_eq)
  have "n div 256 div 16 * 16 + n div 256 mod 16 = n div 256"
    by simp
  then have c: "n div 4096 * 4096 + n div 256 mod 16 * 256 = n div 256 * 256"
    unfolding a by linarith
  have "n div 16 div 16 * 16 + n div 16 mod 16 = n div 16"
    by simp
  then have d: "n div 256 * 256 + n div 16 mod 16 * 16 = n div 16 * 16"
    unfolding b by linarith
  have "n div 16 * 16 + n mod 16 = n"
    by simp
  with c d show ?thesis by linarith
qed

lemma hex4_escape:
  "hex4 (hex_digit (unat c div 4096)) (hex_digit (unat c div 256 mod 16))
        (hex_digit (unat c div 16 mod 16)) (hex_digit (unat c mod 16)) = Some c"
proof -
  have "unat c < 65536"
    using unsigned_less [of c] by simp
  then have "unat c div 4096 < 16" by simp
  then show ?thesis
    by (simp add: hex4_def hex_val_digit hex_places)
qed

lemma parse_unicode_escape:
  "parse_string_body (unicode_escape c @ r)
     = map_option (\<lambda>(t, rest). (c # t, rest)) (parse_string_body r)"
  by (simp add: unicode_escape_def Let_def hex4_escape)

lemma parse_quote_unit:
  "parse_string_body (quote_unit c @ r)
     = map_option (\<lambda>(t, rest). (c # t, rest)) (parse_string_body r)"
  by (auto simp: quote_unit_def simple_escape_def parse_unicode_escape)

lemma parse_plain_unit:
  "c \<noteq> 0x22 \<Longrightarrow> c \<noteq> 0x5C \<Longrightarrow> \<not> c < 0x20
   \<Longrightarrow> parse_string_body (c # r) = map_option (\<lambda>(t, rest). (c # t, rest)) (parse_string_body r)"
  by simp

lemma parse_closing_quote: "parse_string_body (0x22 # rest) = Some ([], rest)"
  by simp

lemma surrogate_plain:
  "is_high_surrogate c \<or> is_low_surrogate c \<Longrightarrow> c \<noteq> 0x22 \<and> c \<noteq> 0x5C \<and> \<not> c < 0x20"
  by (auto simp: is_high_surrogate_def is_low_surrogate_def word_le_nat_alt word_less_nat_alt)

lemma parse_quote_units:
  "parse_string_body (quote_units s @ 0x22 # rest) = Some (s, rest)"
proof (induction s rule: quote_units.induct)
  case 1
  then show ?case by simp
next
  case (2 c)
  then show ?case
    by (simp add: parse_unicode_escape parse_quote_unit parse_closing_quote
          del: parse_string_body.simps)
next
  case (3 c d cs)
  show ?case
  proof (cases "is_high_surrogate c")
    case True
    show ?thesis
    proof (cases "is_low_surrogate d")
      case low: True
      from True low have "c \<noteq> 0x22 \<and> c \<noteq> 0x5C \<and> \<not> c < 0x20" "d \<noteq> 0x22 \<and> d \<noteq> 0x5C \<and> \<not> d < 0x20"
        using surrogate_plain by blast+
      with True low 3(1) show ?thesis
        by (simp add: parse_plain_unit del: parse_string_body.simps)
    next
      case False
      with True 3(2) show ?thesis
        by (simp add: parse_unicode_escape del: parse_string_body.simps)
    qed
  next
    case False
    with 3(3,4) show ?thesis
      by (cases "is_low_surrogate c")
         (simp_all add: parse_unicode_escape parse_quote_unit del: parse_string_body.simps)
  qed
qed

lemma show_nat_digits: "\<forall>d \<in> set (show_nat n). 48 \<le> d \<and> d \<le> 57"
proof (induction n rule: show_nat.induct)
  case (1 n)
  show ?case
  proof (cases "n < 10")
    case True
    then show ?thesis by (simp add: show_nat.simps [of n])
  next
    case False
    have "n mod 10 < 10" by simp
    with False 1 show ?thesis
      by (simp add: show_nat.simps [of n])
  qed
qed

lemma show_nat_not_Nil: "show_nat n \<noteq> []"
  by (simp add: show_nat.simps [of n])

lemma show_nat_hd: "hd (show_nat n) = 48 \<longleftrightarrow> n = 0"
proof (induction n rule: show_nat.induct)
  case (1 n)
  show ?case
  proof (cases "n < 10")
    case True
    then show ?thesis by (simp add: show_nat.simps [of n])
  next
    case False
    then have "n div 10 \<noteq> 0" by simp
    with False 1 show ?thesis
      by (simp add: show_nat.simps [of n] show_nat_not_Nil)
  qed
qed

lemma show_nat_0: "show_nat 0 = [48]"
  by (simp add: show_nat.simps [of 0])

lemma is_digit_of_nat: "48 \<le> d \<Longrightarrow> d \<le> 57 \<Longrightarrow> is_digit (of_nat d)"
  by (simp add: is_digit_def word_le_nat_alt unat_of_nat)

lemma digit_val_of_nat: "48 \<le> d \<Longrightarrow> d \<le> 57 \<Longrightarrow> digit_val (of_nat d) = d - 48"
  by (simp add: digit_val_def unat_of_nat)

lemma show_nat_is_digit: "\<forall>c \<in> set (map of_nat (show_nat n)). is_digit c"
  using show_nat_digits [of n] by (auto simp: is_digit_of_nat)

lemma digits_val_show_nat: "digits_val (map of_nat (show_nat n)) = n"
proof (induction n rule: show_nat.induct)
  case (1 n)
  show ?case
  proof (cases "n < 10")
    case True
    then show ?thesis
      by (simp add: show_nat.simps [of n] digits_val_def digit_val_of_nat del: of_nat_add)
  next
    case False
    have "n mod 10 < 10" by simp
    then have "digit_val (of_nat (48 + n mod 10)) = n mod 10"
      by (simp add: digit_val_of_nat del: of_nat_add)
    with False 1 show ?thesis
      by (simp add: show_nat.simps [of n] digits_val_def del: of_nat_add)
  qed
qed

lemma takeWhile_digits:
  assumes "\<forall>c \<in> set ds. is_digit c" and "\<not> is_digit c"
  shows "takeWhile is_digit (ds @ c # r) = ds" and "dropWhile is_digit (ds @ c # r) = c # r"
  using assms by simp_all

lemma separator_facts:
  assumes "c = 0x2C \<or> c = 0x5D \<or> c = 0x7D"
  shows "\<not> is_digit c" and "c \<noteq> 0x2E" and "c \<noteq> 0x65" and "c \<noteq> 0x45" and "\<not> is_json_ws c"
  using assms by (auto simp: is_digit_def is_json_ws_def)

lemma parse_number_show_nat:
  assumes "c = 0x2C \<or> c = 0x5D \<or> c = 0x7D"
  shows "parse_number (map of_nat (show_nat n) @ c # r) = Some (JNum (int n) 0, c # r)"
proof -
  define ds :: jsstring where "ds = map of_nat (show_nat n)"
  obtain d ds' where ds: "ds = d # ds'"
    using show_nat_not_Nil [of n] by (cases ds) (auto simp: ds_def)
  have dig: "\<forall>c \<in> set ds. is_digit c"
    unfolding ds_def by (rule show_nat_is_digit)
  then have d: "is_digit d" "d \<noteq> 0x2D"
    by (auto simp: ds is_digit_def)
  have val: "digits_val ds = n"
    unfolding ds_def by (rule digits_val_show_nat)
  note sep = separator_facts [OF assms]
  have zero: "ds = [0x30]" if "d = 0x30"
  proof -
    have small: "hd (show_nat n) < 256"
      using show_nat_digits [of n] show_nat_not_Nil [of n] by (cases "show_nat n") auto
    have "of_nat (hd (show_nat n)) = (0x30 :: jschar)"
      using that ds show_nat_not_Nil [of n] by (cases "show_nat n") (auto simp: ds_def)
    then have "unat (of_nat (hd (show_nat n)) :: jschar) = 48"
      by simp
    with small have "hd (show_nat n) = 48"
      by (simp add: unat_of_nat_small)
    then have "n = 0" by (simp add: show_nat_hd)
    then show ?thesis by (simp add: ds_def show_nat_0)
  qed
  have "parse_unsigned False (ds @ c # r) = Some (JNum (int n) 0, c # r)"
  proof (cases "d = 0x30")
    case True
    with zero val sep show ?thesis
      by (simp add: parse_unsigned_def parse_frac_def parse_exp_def make_num_def is_digit_def)
  next
    case False
    with d dig val sep show ?thesis
      by (simp add: ds parse_unsigned_def parse_frac_def parse_exp_def make_num_def
            takeWhile_digits [OF dig sep(1), unfolded ds, simplified] Let_def)
  qed
  then show ?thesis
    using d by (simp add: parse_number_def ds ds_def [symmetric])
qed

lemma join_commas_Cons: "ys \<noteq> [] \<Longrightarrow> join_commas (x # ys) = x @ 0x2C # join_commas ys"
  by (cases ys) auto

lemma skip_ws_Cons: "\<not> is_json_ws c \<Longrightarrow> skip_ws (c # s) = c # s"
  by (simp add: skip_ws_def)

lemma punctuation_not_ws:
  "\<not> is_json_ws 0x2C" "\<not> is_json_ws 0x5D" "\<not> is_json_ws 0x7D" "\<not> is_json_ws 0x22"
  "\<not> is_json_ws 0x3A" "\<not> is_json_ws 0x5B" "\<not> is_json_ws 0x7B"
  by (simp_all add: is_json_ws_def)

lemma is_digit_not_ws: "is_digit c \<Longrightarrow> \<not> is_json_ws c"
  by (auto simp: is_digit_def is_json_ws_def)

lemma stringify_nat: "JSON_stringify (JNum (int n) 0) = map of_nat (show_nat n)"
  by (simp add: JSON_stringify.simps show_num_def)

lemma stringify_array:
  "JSON_stringify (JArr xs) = 0x5B # join_commas (map JSON_stringify xs) @ [0x5D]"
  by (simp add: JSON_stringify.simps)

lemma number_text_head:
  "\<exists>d t. JSON_stringify (JNum (int n) 0) = d # t \<and> is_digit d"
  using show_nat_not_Nil [of n] show_nat_is_digit [of n]
  by (cases "show_nat n") (auto simp: stringify_nat)

lemma parse_value_number:
  assumes "c = 0x2C \<or> c = 0x5D \<or> c = 0x7D"
  shows "parse Value (JSON_stringify (JNum (int n) 0) @ c # r) = Some (JNum (int n) 0, c # r)"
proof -
  obtain d t where dt: "JSON_stringify (JNum (int n) 0) = d # t" "is_digit d"
    using number_text_head by blast
  have "parse_number (d # t @ c # r) = Some (JNum (int n) 0, c # r)"
    using parse_number_show_nat [OF assms, of n r] dt(1) by (simp add: stringify_nat)
  moreover have "d \<noteq> 0x7B" "d \<noteq> 0x5B" "d \<noteq> 0x22" "d \<noteq> 0x74" "d \<noteq> 0x66" "d \<noteq> 0x6E"
    using dt(2) by (auto simp: is_digit_def)
  ultimately show ?thesis
    by (simp add: dt(1) parse.simps(1) js_def)
qed

lemma parse_elements_numbers:
  "bs \<noteq> [] \<Longrightarrow>
   parse Elements (join_commas (map (\<lambda>b. JSON_stringify (JNum (int b) 0)) bs) @ 0x5D # r)
     = Some (JArr (map (\<lambda>b. JNum (int b) 0) bs), r)"
proof (induction bs rule: list_nonempty_induct)
  case (single b)
  obtain d t where dt: "JSON_stringify (JNum (int b) 0) = d # t" "is_digit d"
    using number_text_head by blast
  have "parse Value (d # t @ 0x5D # r) = Some (JNum (int b) 0, 0x5D # r)"
    using parse_value_number [of "0x5D" b r] by (simp add: dt(1))
  then show ?case
    using dt(2) by (simp add: parse.simps(2) dt(1) skip_ws_Cons is_digit_not_ws punctuation_not_ws)
next
  case (cons b bs)
  obtain d t where dt: "JSON_stringify (JNum (int b) 0) = d # t" "is_digit d"
    using number_text_head by blast
  let ?rest = "join_commas (map (\<lambda>b. JSON_stringify (JNum (int b) 0)) bs) @ 0x5D # r"
  have "parse Value (d # t @ 0x2C # ?rest) = Some (JNum (int b) 0, 0x2C # ?rest)"
    using parse_value_number [of "0x2C" b ?rest] by (simp add: dt(1))
  then show ?case
    using dt(2) cons
    by (simp add: parse.simps(2) join_commas_Cons dt(1) skip_ws_Cons is_digit_not_ws
          punctuation_not_ws)
qed

lemma parse_value_bytes:
  "parse Value (JSON_stringify (JArr (map (\<lambda>b. JNum (int b) 0) bs)) @ r)
     = Some (JArr (map (\<lambda>b. JNum (int b) 0) bs), r)"
proof (cases "bs = []")
  case True
  then show ?thesis
    by (simp add: stringify_array parse.simps(1) skip_ws_Cons punctuation_not_ws)
next
  case False
  then obtain b bs' where bs: "bs = b # bs'" by (cases bs) auto
  obtain d t where dt: "JSON_stringify (JNum (int b) 0) = d # t" "is_digit d"
    using number_text_head by blast
  let ?txt = "join_commas (map (\<lambda>b. JSON_stringify (JNum (int b) 0)) bs) @ 0x5D # r"
  have "\<exists>t'. ?txt = d # t'"
    by (cases bs') (simp_all add: bs dt(1))
  then obtain t' where t': "?txt = d # t'" by blast
  have "d \<noteq> 0x5D"
    using dt(2) by (auto simp: is_digit_def)
  then have "parse Value (0x5B # ?txt) = parse Elements ?txt"
    using dt(2) by (simp add: parse.simps(1) t' skip_ws_Cons is_digit_not_ws)
  then show ?thesis
    using parse_elements_numbers [OF False, of r] by (simp add: stringify_array comp_def)
qed

lemma skip_ws_Nil: "skip_ws [] = []"
  by (simp add: skip_ws_def)

lemma stringify_object:
  "JSON_stringify (JObj ps) =
     0x7B # join_commas (map (\<lambda>(k, v). QuoteJSONString k @ 0x3A # JSON_stringify v)
                             (own_props ps)) @ [0x7D]"
  by (simp add: JSON_stringify.simps)

lemma own_props_plain:
  assumes "\<forall>k \<in> fst ` set ps. \<not> is_array_index k"
  shows "own_props ps = ps"
proof -
  have "filter (\<lambda>(k, v). is_array_index k) ps = []"
    using assms by (auto simp: filter_empty_conv)
  moreover have "filter (\<lambda>(k, v). \<not> is_array_index k) ps = ps"
    using assms by (auto simp: filter_id_conv)
  ultimately show ?thesis
    by (simp add: own_props_def)
qed

lemma bytes_text_head:
  "\<exists>t. JSON_stringify (bytes_json bs) @ r = 0x5B # t"
  by (simp add: bytes_json_def stringify_array)

lemma parse_member_step:
  assumes "\<not> is_json_ws c"
  shows "parse Members (QuoteJSONString p @ 0x3A # JSON_stringify (bytes_json bs) @ c # r)
     = (if c = 0x2C then
          (case parse Members r of
             Some (JObj ps, r5) \<Rightarrow> Some (JObj (obj_cons p (bytes_json bs) ps), r5)
           | _ \<Rightarrow> None)
        else if c = 0x7D then Some (JObj [(p, bytes_json bs)], r)
        else None)"
proof -
  let ?arr = "JSON_stringify (bytes_json bs)"
  obtain t where t: "?arr @ c # r = 0x5B # t"
    using bytes_text_head by blast
  have v: "parse Value (?arr @ c # r) = Some (bytes_json bs, c # r)"
    unfolding bytes_json_def by (rule parse_value_bytes)
  have s: "parse_string_body (quote_units p @ 0x22 # 0x3A # ?arr @ c # r)
             = Some (p, 0x3A # ?arr @ c # r)"
    by (rule parse_quote_units)
  have w: "skip_ws (?arr @ c # r) = ?arr @ c # r"
    by (simp add: t skip_ws_Cons punctuation_not_ws)
  show ?thesis
    by (subst parse.simps(3))
       (simp add: QuoteJSONString_def skip_ws_Cons punctuation_not_ws s v w assms)
qed

lemma parse_members_snapshot:
  "S \<noteq> [] \<Longrightarrow> distinct (map fst S) \<Longrightarrow>
   parse Members
     (join_commas (map (\<lambda>(k, v). QuoteJSONString k @ 0x3A # JSON_stringify v)
                       (map (\<lambda>(p, bs). (p, bytes_json bs)) S)) @ 0x7D # r)
     = Some (JObj (map (\<lambda>(p, bs). (p, bytes_json bs)) S), r)"
proof (induction S rule: list_nonempty_induct)
  case (single x)
  obtain p bs where x: "x = (p, bs)" by (cases x)
  show ?case
    using parse_member_step [of "0x7D" p bs r] by (simp add: x punctuation_not_ws)
next
  case (cons x S)
  obtain p bs where x: "x = (p, bs)" by (cases x)
  let ?ps = "map (\<lambda>(p, bs). (p, bytes_json bs)) S"
  let ?rest = "join_commas (map (\<lambda>(k, v). QuoteJSONString k @ 0x3A # JSON_stringify v) ?ps)
                 @ 0x7D # r"
  from cons have ih: "parse Members ?rest = Some (JObj ?ps, r)" and new: "p \<notin> fst ` set S"
    by (auto simp: x)
  have "map_of ?ps p = None"
    using new by (force simp: map_of_eq_None_iff)
  moreover have "filter (\<lambda>(k', x). k' \<noteq> p) ?ps = ?ps"
    using new by (force simp: filter_id_conv)
  ultimately have oc: "obj_cons p (bytes_json bs) ?ps = (p, bytes_json bs) # ?ps"
    by (simp add: obj_cons_def)
  show ?case
    using parse_member_step [of "0x2C" p bs ?rest] cons(1) ih oc
    by (simp add: x join_commas_Cons punctuation_not_ws)
qed

lemma snapshot_props_plain:
  assumes "\<forall>p \<in> fst ` set S. \<not> is_array_index p"
  shows "own_props (map (\<lambda>(p, bs). (p, bytes_json bs)) S) = map (\<lambda>(p, bs). (p, bytes_json bs)) S"
  using assms by (intro own_props_plain) force

lemma parse_stringify_snapshot:
  assumes "distinct (map fst S)" and "\<forall>p \<in> fst ` set S. \<not> is_array_index p"
  shows "JSON_parse (JSON_stringify (snapshot_json S)) = Some (snapshot_json S)"
proof (cases "S = []")
  case True
  then show ?thesis
    by (simp add: JSON_parse_def snapshot_json_def stringify_object own_props_def
          skip_ws_Cons punctuation_not_ws parse.simps(1) skip_ws_Nil)
next
  case False
  let ?ps = "map (\<lambda>(p, bs). (p, bytes_json bs)) S"
  let ?body = "join_commas (map (\<lambda>(k, v). QuoteJSONString k @ 0x3A # JSON_stringify v) ?ps)
                 @ [0x7D]"
  have shape: "JSON_stringify (snapshot_json S) = 0x7B # ?body"
    by (simp add: snapshot_json_def stringify_object snapshot_props_plain [OF assms(2)])
  obtain x S' where S: "S = x # S'"
    using False by (cases S) auto
  obtain p bs where x: "x = (p, bs)" by (cases x)
  have "\<exists>t. ?body = 0x22 # t"
    by (cases S') (simp_all add: S x QuoteJSONString_def)
  then obtain t where t: "?body = 0x22 # t" by blast
  have "parse Value (0x7B # 0x22 # t) = parse Members (0x22 # t)"
    by (subst parse.simps(1)) (simp add: skip_ws_Cons punctuation_not_ws)
  then have "parse Value (0x7B # ?body) = parse Members ?body"
    by (simp only: t)
  also have "\<dots> = Some (JObj ?ps, [])"
    using parse_members_snapshot [OF False assms(1), of "[]"] by simp
  finally have pv: "parse Value (0x7B # ?body) = Some (JObj ?ps, [])" .
  have sk: "skip_ws (JSON_stringify (snapshot_json S)) = 0x7B # ?body"
    unfolding shape by (rule skip_ws_Cons) (rule punctuation_not_ws(7))
  show ?thesis
    unfolding JSON_parse_def sk pv by (simp add: skip_ws_Nil snapshot_json_def)
qed

lemma deserialize_serialize:
  assumes "distinct (map fst S)" and "\<forall>p \<in> fst ` set S. \<not> is_array_index p"
    and "serialize (snapshot_json S) = Inr str"
  shows "deserialize str = snapshot_json S"
  using atob_btoa [OF assms(3) [unfolded serialize_def]] parse_stringify_snapshot [OF assms(1,2)]
  by (simp add: deserialize_def)

section \<open>Properties of the codec\<close>

text \<open>
  C1 (round trip), at a snapshot whose one path holds the code unit U+0100:
  \<open>JSON.stringify\<close> copies that code unit, \<open>btoa\<close> raises InvalidCharacterError, and
  \<open>serialize\<close> yields no encoding that \<open>deserialize\<close> could take back.
\<close>

theorem serialize_raises_above_latin1:
  "serialize (snapshot_json [([0x2F, 0x100], [])]) = Inl InvalidCharacterError"
  by code_simp


subsection \<open>What \<open>deserialize\<close> accepts and rejects\<close>










text \<open>
  The preload restores whatever the load delivers, if it is truthy and has keys:
  a stored JSON string of two characters becomes the empty files \<open>/0\<close> and \<open>/1\<close>.
\<close>

lemma preRun_restores_string:
  "deserialize (js ''ImFiIg=='') = JStr (js ''ab'')
   \<and> FS (preRun (example_host\<lparr>localStorage :=
          Some \<lparr>items = [(STORAGE_KEY, js ''ImFiIg=='')], quota = 5242880\<rparr>\<rparr>))
       = Dir (fmupd (js ''0'') (File [] 511) (fmupd (js ''1'') (File [] 511) fmempty))"
proof -
  have d: "deserialize (js ''ImFiIg=='') = JStr (js ''ab'')"
    by code_simp
  have k: "Object_keys (JStr (js ''ab'')) = [js ''0'', js ''1'']"
    by code_simp
  have r: "restoreSaveFiles example_engine (Dir fmempty) (JStr (js ''ab''))
      = Dir (fmupd (js ''0'') (File [] 511) (fmupd (js ''1'') (File [] 511) fmempty))"
    by code_simp
  have n: "js ''ImFiIg=='' \<noteq> []" "js ''ab'' \<noteq> []"
    by (simp_all add: js_def)
  show ?thesis
    using d k r n
    by (simp add: preRun_def loadFromIndexedDB_def getIndexedDB_def loadFromLocalStorage_def
          getItem_def truthy_def example_host_def)
qed



section \<open>Properties of the storage backends\<close>

text \<open>
  C8: when the database opens and the object store is not there,
  \<open>saveToIndexedDB\<close> calls \<open>onError\<close> with the error "Object store not found" and
  \<open>loadFromIndexedDB\<close> calls \<open>onSuccess\<close> with \<open>null\<close>.
\<close>

theorem store_absent:
  assumes "getIndexedDB h = Some idb"
  shows "(idb_open True idb = Inr db \<and> db_store db = None \<longrightarrow>
            snd (saveToIndexedDB h files) = Inl (Error (js ''Object store not found'')))
         \<and> (idb_open False idb = Inr db' \<and> db_store db' = None \<longrightarrow>
            snd (loadFromIndexedDB h) = Inr JNull)"
  using assms by (simp add: saveToIndexedDB_def loadFromIndexedDB_def Let_def)

theorem store_absent_witness:
  "getIndexedDB (example_host\<lparr>indexedDB := Some example_factory\<rparr>) = Some example_factory
   \<and> idb_open True example_factory = Inr \<lparr>db_version = 2, db_store = None\<rparr>
   \<and> idb_open False example_factory = Inr \<lparr>db_version = 2, db_store = None\<rparr>
   \<and> db_store \<lparr>db_version = 2, db_store = None\<rparr> = None
   \<and> snd (saveToIndexedDB (example_host\<lparr>indexedDB := Some example_factory\<rparr>) (JObj []))
       = Inl (Error (js ''Object store not found''))
   \<and> snd (loadFromIndexedDB (example_host\<lparr>indexedDB := Some example_factory\<rparr>)) = Inr JNull"
proof -
  have g: "getIndexedDB (example_host\<lparr>indexedDB := Some example_factory\<rparr>)
             = Some example_factory"
    by (simp add: getIndexedDB_def)
  have o1: "idb_open True example_factory = Inr \<lparr>db_version = 2, db_store = None\<rparr>"
    by (simp add: idb_open_def example_factory_def IDB_VERSION_def)
  have o2: "idb_open False example_factory = Inr \<lparr>db_version = 2, db_store = None\<rparr>"
    by (simp add: idb_open_def example_factory_def IDB_VERSION_def)
  show ?thesis
    using store_absent [OF g, of "\<lparr>db_version = 2, db_store = None\<rparr>" "JObj []"
        "\<lparr>db_version = 2, db_store = None\<rparr>"] g o1 o2
    by simp
qed

subsection \<open>The capacity law of the fallback store\<close>

lemma split_on_head_Nil: "split_on c p = [] # segs \<Longrightarrow> segs \<noteq> [] \<Longrightarrow> \<exists>r. p = c # r"
  by (cases p) (auto split: if_splits list.splits)

lemma normalized_path_not_index: "normalized_path p \<Longrightarrow> \<not> is_array_index p"
proof
  assume n: "normalized_path p" and i: "is_array_index p"
  from n obtain segs where "split_on 0x2F p = [] # segs" "segs \<noteq> []"
    by (auto simp: normalized_path_def split: list.splits)
  then obtain r where "p = 0x2F # r"
    using split_on_head_Nil by blast
  with i show False
    by (simp add: is_array_index_def is_digit_def)
qed

lemma is_snapshot_keys:
  "is_snapshot S \<Longrightarrow> distinct (map fst S) \<and> (\<forall>p \<in> fst ` set S. \<not> is_array_index p)"
  by (auto simp: is_snapshot_def list_all_iff normalized_path_not_index)

lemma JSON_stringify_not_Nil: "JSON_stringify v \<noteq> []"
  by (cases v) (simp_all add: JSON_stringify.simps js_def show_num_def show_nat_not_Nil
      QuoteJSONString_def Let_def)

lemma serialize_not_Nil: "serialize files = Inr str \<Longrightarrow> str \<noteq> []"
  by (auto simp: serialize_def btoa_def b64_encode_Nil_iff JSON_stringify_not_Nil split: if_splits)

lemma length_b64_encode_eq: "length (b64_encode bs) = 4 * ((length bs + 2) div 3)"
proof (induction bs rule: b64_encode.induct)
  case (4 a b c r)
  have "(length r + 5) div 3 = Suc ((length r + 2) div 3)"
    by presburger
  with 4 show ?case by (simp add: add.commute)
qed simp_all

lemma length_serialize:
  "serialize files = Inr str \<Longrightarrow> length str = 4 * ((length (JSON_stringify files) + 2) div 3)"
  by (auto simp: serialize_def btoa_def length_b64_encode_eq split: if_splits)

lemma length_join_commas_replicate:
  "length (join_commas (replicate (Suc n) x)) = n * Suc (length x) + length x"
  by (induction n) (simp_all add: join_commas_Cons)

lemma set_join_commas_replicate:
  "set (join_commas (replicate n x)) \<subseteq> insert 0x2C (set x)"
proof (induction n)
  case 0
  then show ?case by simp
next
  case (Suc n)
  then show ?case
    by (cases n) (auto simp: join_commas_Cons)
qed

lemma getItem_setItem:
  "setItem st k v = Inr st' \<Longrightarrow> getItem st' k = Some v"
  by (auto simp: setItem_def getItem_def update_conv' split: if_splits)

lemma stringify_zeros:
  "JSON_stringify (snapshot_json [(js ''/a'', replicate (Suc n) 0)])
     = [0x7B, 0x22, 0x2F, 0x61, 0x22, 0x3A, 0x5B] @ join_commas (replicate (Suc n) [0x30])
       @ [0x5D, 0x7D]"
proof -
  have "\<not> is_array_index (js ''/a'')"
    by (simp add: is_array_index_def js_def is_digit_def)
  then have "own_props [(js ''/a'', bytes_json (replicate (Suc n) 0))]
      = [(js ''/a'', bytes_json (replicate (Suc n) 0))]"
    by (intro own_props_plain) simp
  moreover have "QuoteJSONString (js ''/a'') = [0x22, 0x2F, 0x61, 0x22]"
    by (simp add: QuoteJSONString_def js_def quote_unit_def is_high_surrogate_def
          is_low_surrogate_def)
  moreover have "JSON_stringify (JNum 0 0) = [0x30]"
    using stringify_nat [of 0] by (simp add: show_nat_0)
  ultimately show ?thesis
    by (simp add: snapshot_json_def stringify_object bytes_json_def stringify_array
          del: replicate.simps)
qed

lemma serialize_zeros:
  "\<exists>str. serialize (snapshot_json [(js ''/a'', replicate (Suc n) 0)]) = Inr str
         \<and> length str = 4 * ((2 * n + 12) div 3)"
proof -
  let ?t = "JSON_stringify (snapshot_json [(js ''/a'', replicate (Suc n) 0)])"
  have "set ?t \<subseteq> {0x7B, 0x22, 0x2F, 0x61, 0x3A, 0x5B, 0x2C, 0x30, 0x5D, 0x7D}"
    using set_join_commas_replicate [of "Suc n" "[0x30]"]
    by (auto simp: stringify_zeros simp del: replicate.simps)
  then have "\<not> list_ex (\<lambda>c. 0xFF < c) ?t"
    by (auto simp: list_ex_iff)
  then obtain str where s: "serialize (snapshot_json [(js ''/a'', replicate (Suc n) 0)]) = Inr str"
    by (simp add: serialize_def btoa_def)
  have "length ?t = 2 * n + 10"
    by (simp add: stringify_zeros length_join_commas_replicate del: replicate.simps)
  with length_serialize [OF s] s show ?thesis
    by simp
qed

text \<open>
  C3, as stated, on a host whose \<open>localStorage\<close> has no room left: the encoding of
  the empty snapshot has four characters, far below the ceiling, and
  \<open>saveToLocalStorage\<close> calls \<open>onError\<close> with the QuotaExceededError of \<open>setItem\<close>.
\<close>

theorem save_refused_below_ceiling:
  "serialize (JObj []) = Inr (js ''e30='')
   \<and> length (js ''e30='') \<le> 4 * 1024 * 1024
   \<and> saveToLocalStorage (example_host\<lparr>localStorage := Some \<lparr>items = [], quota = 10\<rparr>\<rparr>) (JObj [])
       = (example_host\<lparr>localStorage := Some \<lparr>items = [], quota = 10\<rparr>\<rparr>,
          Inl QuotaExceededError)"
proof -
  have s: "serialize (JObj []) = Inr (js ''e30='')"
    by code_simp
  then show ?thesis
    by (simp add: saveToLocalStorage_def setItem_def usage_def STORAGE_KEY_def js_def)
qed

text \<open>
  C3, amended, for every payload that has an encoding. Above the ceiling of
  4,194,304 characters \<open>saveToLocalStorage\<close> reports the error and leaves the host,
  and so the stored value, as it was. At or below the ceiling it calls \<open>setItem\<close>:
  when the host raises, that error is reported and the host is as it was; when
  the host accepts, the save succeeds, and if the payload is a snapshot, the load
  that follows returns it unchanged.
\<close>

theorem capacity_law:
  assumes "serialize files = Inr str"
  shows "(4 * 1024 * 1024 < length str \<longrightarrow>
            saveToLocalStorage h files
              = (h, Inl (Error (js ''Save data too large for localStorage (~5MB limit)''))))
         \<and> (length str \<le> 4 * 1024 * 1024 \<and> localStorage h = Some st
              \<and> setItem st STORAGE_KEY str = Inl e \<longrightarrow>
            saveToLocalStorage h files = (h, Inl e))
         \<and> (length str \<le> 4 * 1024 * 1024 \<and> localStorage h = Some st
              \<and> setItem st STORAGE_KEY str = Inr st' \<longrightarrow>
            saveToLocalStorage h files = (h\<lparr>localStorage := Some st'\<rparr>, Inr ())
            \<and> (files = snapshot_json S \<and> is_snapshot S \<longrightarrow>
                 loadFromLocalStorage (h\<lparr>localStorage := Some st'\<rparr>)
                   = (h\<lparr>localStorage := Some st'\<rparr>, Inr files)))"
proof (intro conjI impI)
  assume "4 * 1024 * 1024 < length str"
  with assms show "saveToLocalStorage h files
      = (h, Inl (Error (js ''Save data too large for localStorage (~5MB limit)'')))"
    by (simp add: saveToLocalStorage_def)
next
  assume "length str \<le> 4 * 1024 * 1024 \<and> localStorage h = Some st
      \<and> setItem st STORAGE_KEY str = Inl e"
  with assms show "saveToLocalStorage h files = (h, Inl e)"
    by (simp add: saveToLocalStorage_def)
next
  assume a: "length str \<le> 4 * 1024 * 1024 \<and> localStorage h = Some st
      \<and> setItem st STORAGE_KEY str = Inr st'"
  with assms show "saveToLocalStorage h files = (h\<lparr>localStorage := Some st'\<rparr>, Inr ())"
    by (simp add: saveToLocalStorage_def)
  assume b: "files = snapshot_json S \<and> is_snapshot S"
  from a have "getItem st' STORAGE_KEY = Some str"
    by (auto intro: getItem_setItem)
  moreover have "str \<noteq> []"
    using assms by (rule serialize_not_Nil)
  moreover have "deserialize str = files"
    using b assms is_snapshot_keys [of S] by (simp add: deserialize_serialize)
  ultimately show "loadFromLocalStorage (h\<lparr>localStorage := Some st'\<rparr>)
      = (h\<lparr>localStorage := Some st'\<rparr>, Inr files)"
    by (simp add: loadFromLocalStorage_def)
qed

theorem capacity_law_witness:
  "(\<exists>str. serialize (snapshot_json [(js ''/a'', replicate 1600000 0)]) = Inr str
          \<and> 4 * 1024 * 1024 < length str)
   \<and> saveToLocalStorage example_host (snapshot_json [(js ''/a'', replicate 1600000 0)])
       = (example_host, Inl (Error (js ''Save data too large for localStorage (~5MB limit)'')))
   \<and> serialize (snapshot_json [(js ''/a'', [9])]) = Inr (js ''eyIvYSI6WzldfQ=='')
   \<and> length (js ''eyIvYSI6WzldfQ=='') \<le> 4 * 1024 * 1024
   \<and> setItem \<lparr>items = [], quota = 10\<rparr> STORAGE_KEY (js ''eyIvYSI6WzldfQ=='')
       = Inl QuotaExceededError
   \<and> saveToLocalStorage (example_host\<lparr>localStorage := Some \<lparr>items = [], quota = 10\<rparr>\<rparr>)
         (snapshot_json [(js ''/a'', [9])])
       = (example_host\<lparr>localStorage := Some \<lparr>items = [], quota = 10\<rparr>\<rparr>,
          Inl QuotaExceededError)
   \<and> setItem example_storage STORAGE_KEY (js ''eyIvYSI6WzldfQ=='')
       = Inr \<lparr>items = [(STORAGE_KEY, js ''eyIvYSI6WzldfQ=='')], quota = 5242880\<rparr>
   \<and> is_snapshot [(js ''/a'', [9])]
   \<and> saveToLocalStorage example_host (snapshot_json [(js ''/a'', [9])])
       = (example_host\<lparr>localStorage :=
            Some \<lparr>items = [(STORAGE_KEY, js ''eyIvYSI6WzldfQ=='')], quota = 5242880\<rparr>\<rparr>, Inr ())
   \<and> loadFromLocalStorage (example_host\<lparr>localStorage :=
            Some \<lparr>items = [(STORAGE_KEY, js ''eyIvYSI6WzldfQ=='')], quota = 5242880\<rparr>\<rparr>)
       = (example_host\<lparr>localStorage :=
            Some \<lparr>items = [(STORAGE_KEY, js ''eyIvYSI6WzldfQ=='')], quota = 5242880\<rparr>\<rparr>,
          Inr (snapshot_json [(js ''/a'', [9])]))"
proof -
  obtain big where big: "serialize (snapshot_json [(js ''/a'', replicate (Suc 1599999) 0)]) = Inr big"
    and len: "length big = 4 * ((2 * 1599999 + 12) div 3)"
    using serialize_zeros [of 1599999] by blast
  have big': "serialize (snapshot_json [(js ''/a'', replicate 1600000 0)]) = Inr big"
    using big by simp
  have over: "4 * 1024 * 1024 < length big"
    by (simp add: len)
  have small: "serialize (snapshot_json [(js ''/a'', [9])]) = Inr (js ''eyIvYSI6WzldfQ=='')"
    by code_simp
  have fits: "length (js ''eyIvYSI6WzldfQ=='') \<le> 4 * 1024 * 1024"
    by (simp add: js_def)
  have ls: "localStorage example_host = Some example_storage"
    by (simp add: example_host_def)
  have full: "setItem \<lparr>items = [], quota = 10\<rparr> STORAGE_KEY (js ''eyIvYSI6WzldfQ=='')
      = Inl QuotaExceededError"
    by (simp add: setItem_def usage_def STORAGE_KEY_def js_def)
  have room: "setItem example_storage STORAGE_KEY (js ''eyIvYSI6WzldfQ=='')
      = Inr \<lparr>items = [(STORAGE_KEY, js ''eyIvYSI6WzldfQ=='')], quota = 5242880\<rparr>"
    by (simp add: setItem_def usage_def example_storage_def STORAGE_KEY_def js_def)
  have snap: "is_snapshot [(js ''/a'', [9])]"
    by (simp add: is_snapshot_def normalized_path_def plain_segment_def js_def)
  show ?thesis
    using capacity_law [OF big', of example_host]
      capacity_law [OF small, of "example_host\<lparr>localStorage := Some \<lparr>items = [], quota = 10\<rparr>\<rparr>"
        "\<lparr>items = [], quota = 10\<rparr>" QuotaExceededError]
      capacity_law [OF small, of example_host example_storage _
        "\<lparr>items = [(STORAGE_KEY, js ''eyIvYSI6WzldfQ=='')], quota = 5242880\<rparr>"
        "[(js ''/a'', [9])]"]
      big' over small fits ls full room snap
    by auto
qed


subsection \<open>The fallback\<close>

lemma idb_open_version: "idb_open b idb = Inr db \<Longrightarrow> db_version db = IDB_VERSION"
  by (auto simp: idb_open_def split: option.splits if_splits)

lemma idb_open_no_error: "idb_open b idb = Inr db \<Longrightarrow> idb_open_error idb = None"
  by (auto simp: idb_open_def split: option.splits)

lemma primary_save_load:
  assumes "getIndexedDB h = Some idb" and "idb_open True idb = Inr db"
    and "db_store db = Some kvs" and "idb_tx_throws idb = None" and "idb_tx_error idb = None"
    and "serialize files = Inr str"
  shows "snd (saveToIndexedDB h files) = Inr ()"
    and "snd (loadFromIndexedDB (fst (saveToIndexedDB h files))) = Inr (deserialize str)"
proof -
  let ?db = "db\<lparr>db_store := Some (AList.update STORAGE_KEY str kvs)\<rparr>"
  let ?h = "h\<lparr>indexedDB := Some (idb\<lparr>idb_database := Some ?db\<rparr>)\<rparr>"
  have save: "saveToIndexedDB h files = (?h, Inr ())"
    using assms by (simp add: saveToIndexedDB_def Let_def)
  then show "snd (saveToIndexedDB h files) = Inr ()"
    by simp
  have "db_version ?db = IDB_VERSION"
    using idb_open_version [OF assms(2)] by simp
  moreover have "idb_open_error idb = None"
    using assms(2) by (rule idb_open_no_error)
  ultimately have "idb_open False (idb\<lparr>idb_database := Some ?db\<rparr>) = Inr ?db"
    by (simp add: idb_open_def)
  moreover have "str \<noteq> []"
    using assms(6) by (rule serialize_not_Nil)
  ultimately show "snd (loadFromIndexedDB (fst (saveToIndexedDB h files))) = Inr (deserialize str)"
    using assms(4,5)
    by (simp add: save loadFromIndexedDB_def getIndexedDB_def Let_def update_conv')
qed

lemma fallback_save_load:
  assumes "getIndexedDB h = None" and "localStorage h = Some st"
    and "serialize files = Inr str" and "length str \<le> 4 * 1024 * 1024"
    and "setItem st STORAGE_KEY str = Inr st'"
  shows "snd (saveToIndexedDB h files) = Inr ()"
    and "snd (loadFromIndexedDB (fst (saveToIndexedDB h files))) = Inr (deserialize str)"
proof -
  have save: "saveToIndexedDB h files = (h\<lparr>localStorage := Some st'\<rparr>, Inr ())"
    using assms by (simp add: saveToIndexedDB_def saveToLocalStorage_def)
  then show "snd (saveToIndexedDB h files) = Inr ()"
    by simp
  have "getItem st' STORAGE_KEY = Some str"
    using assms(5) by (rule getItem_setItem)
  moreover have "str \<noteq> []"
    using assms(3) by (rule serialize_not_Nil)
  ultimately show "snd (loadFromIndexedDB (fst (saveToIndexedDB h files))) = Inr (deserialize str)"
    using assms(1)
    by (simp add: save loadFromIndexedDB_def getIndexedDB_def loadFromLocalStorage_def)
qed

text \<open>
  C4, as stated, at a snapshot whose one file holds 1,600,000 zero bytes. Its
  encoding is longer than the ceiling of the fallback store: on the host without
  IndexedDB \<open>saveToIndexedDB\<close> calls \<open>onError\<close> with the error of the ceiling and
  stores nothing, while on the same host with a working IndexedDB the save
  succeeds and the load returns the snapshot.
\<close>

theorem fallback_refuses_above_ceiling:
  "getIndexedDB example_host = None
   \<and> getIndexedDB (example_host\<lparr>indexedDB := Some fresh_factory\<rparr>) = Some fresh_factory
   \<and> is_snapshot [(js ''/a'', replicate 1600000 0)]
   \<and> saveToIndexedDB example_host (snapshot_json [(js ''/a'', replicate 1600000 0)])
       = (example_host, Inl (Error (js ''Save data too large for localStorage (~5MB limit)'')))
   \<and> snd (saveToIndexedDB (example_host\<lparr>indexedDB := Some fresh_factory\<rparr>)
         (snapshot_json [(js ''/a'', replicate 1600000 0)])) = Inr ()
   \<and> snd (loadFromIndexedDB (fst (saveToIndexedDB (example_host\<lparr>indexedDB := Some fresh_factory\<rparr>)
         (snapshot_json [(js ''/a'', replicate 1600000 0)]))))
       = Inr (snapshot_json [(js ''/a'', replicate 1600000 0)])"
proof -
  let ?hp = "example_host\<lparr>indexedDB := Some fresh_factory\<rparr>"
  let ?S = "[(js ''/a'', replicate 1600000 (0 :: nat))]"
  obtain big where big: "serialize (snapshot_json [(js ''/a'', replicate (Suc 1599999) 0)]) = Inr big"
    and len: "length big = 4 * ((2 * 1599999 + 12) div 3)"
    using serialize_zeros [of 1599999] by blast
  have big': "serialize (snapshot_json ?S) = Inr big"
    using big by simp
  have over: "4 * 1024 * 1024 < length big"
    by (simp add: len)
  have none: "getIndexedDB example_host = None"
    by (simp add: getIndexedDB_def example_host_def)
  have some: "getIndexedDB ?hp = Some fresh_factory"
    by (simp add: getIndexedDB_def)
  have opened: "idb_open True fresh_factory = Inr \<lparr>db_version = 2, db_store = Some []\<rparr>"
    by (simp add: idb_open_def fresh_factory_def IDB_VERSION_def)
  have store: "db_store \<lparr>db_version = 2, db_store = Some []\<rparr> = Some []"
    by simp
  have flags: "idb_tx_throws fresh_factory = None" "idb_tx_error fresh_factory = None"
    by (simp_all add: fresh_factory_def)
  have "normalized_path (js ''/a'')"
    by (simp add: normalized_path_def plain_segment_def js_def)
  then have snap: "is_snapshot ?S"
    by (simp add: is_snapshot_def list_all_iff)
  have refused: "saveToIndexedDB example_host (snapshot_json ?S)
      = (example_host, Inl (Error (js ''Save data too large for localStorage (~5MB limit)'')))"
    using none big' over by (simp add: saveToIndexedDB_def saveToLocalStorage_def)
  have saved: "snd (saveToIndexedDB ?hp (snapshot_json ?S)) = Inr ()"
    using some opened store flags big' by (rule primary_save_load(1))
  have "snd (loadFromIndexedDB (fst (saveToIndexedDB ?hp (snapshot_json ?S)))) = Inr (deserialize big)"
    using some opened store flags big' by (rule primary_save_load(2))
  moreover have "deserialize big = snapshot_json ?S"
    using is_snapshot_keys [OF snap] big' by (simp add: deserialize_serialize)
  ultimately have loaded: "snd (loadFromIndexedDB (fst (saveToIndexedDB ?hp (snapshot_json ?S))))
      = Inr (snapshot_json ?S)"
    by simp
  from none some snap refused saved loaded show ?thesis
    by (simp only: simp_thms)
qed

text \<open>
  C4, amended. On a host without IndexedDB, \<open>saveToIndexedDB\<close> and
  \<open>loadFromIndexedDB\<close> give the result and the host that the localStorage functions
  give, with no error of their own. The choice is read from the host at the call:
  on any host with IndexedDB, whatever happened before, neither function touches
  localStorage. For a snapshot that has an encoding, a working database saves it
  and loads it back. The fallback gives the same two results when the encoding is
  within the ceiling and \<open>setItem\<close> accepts it; above the ceiling its save reports
  the error of the ceiling, and when \<open>setItem\<close> raises, its save reports that
  error; in both cases the host is as it was.
\<close>

theorem fallback_substitution:
  "(getIndexedDB h = None \<longrightarrow>
      saveToIndexedDB h files = saveToLocalStorage h files
      \<and> loadFromIndexedDB h = loadFromLocalStorage h)
   \<and> (getIndexedDB h \<noteq> None \<longrightarrow>
      localStorage (fst (saveToIndexedDB h files)) = localStorage h
      \<and> localStorage (fst (loadFromIndexedDB h)) = localStorage h)
   \<and> (getIndexedDB h = None \<and> localStorage h = Some st
        \<and> getIndexedDB hp = Some idb \<and> idb_open True idb = Inr db \<and> db_store db = Some kvs
        \<and> idb_tx_throws idb = None \<and> idb_tx_error idb = None
        \<and> is_snapshot S \<and> serialize (snapshot_json S) = Inr str \<longrightarrow>
      snd (saveToIndexedDB hp (snapshot_json S)) = Inr ()
      \<and> snd (loadFromIndexedDB (fst (saveToIndexedDB hp (snapshot_json S))))
          = Inr (snapshot_json S)
      \<and> (length str \<le> 4 * 1024 * 1024 \<and> setItem st STORAGE_KEY str = Inr st' \<longrightarrow>
           snd (saveToIndexedDB h (snapshot_json S)) = Inr ()
           \<and> snd (loadFromIndexedDB (fst (saveToIndexedDB h (snapshot_json S))))
               = Inr (snapshot_json S))
      \<and> (4 * 1024 * 1024 < length str \<longrightarrow>
           saveToIndexedDB h (snapshot_json S)
             = (h, Inl (Error (js ''Save data too large for localStorage (~5MB limit)''))))
      \<and> (length str \<le> 4 * 1024 * 1024 \<and> setItem st STORAGE_KEY str = Inl e \<longrightarrow>
           saveToIndexedDB h (snapshot_json S) = (h, Inl e)))"
proof (intro conjI impI)
  assume "getIndexedDB h = None"
  then show "saveToIndexedDB h files = saveToLocalStorage h files"
    and "loadFromIndexedDB h = loadFromLocalStorage h"
    by (simp_all add: saveToIndexedDB_def loadFromIndexedDB_def)
next
  assume "getIndexedDB h \<noteq> None"
  then show "localStorage (fst (saveToIndexedDB h files)) = localStorage h"
    and "localStorage (fst (loadFromIndexedDB h)) = localStorage h"
    by (auto simp: saveToIndexedDB_def loadFromIndexedDB_def Let_def
        split: option.splits sum.splits)
next
  assume a: "getIndexedDB h = None \<and> localStorage h = Some st
        \<and> getIndexedDB hp = Some idb \<and> idb_open True idb = Inr db \<and> db_store db = Some kvs
        \<and> idb_tx_throws idb = None \<and> idb_tx_error idb = None
        \<and> is_snapshot S \<and> serialize (snapshot_json S) = Inr str"
  then have f1: "getIndexedDB h = None" and f2: "localStorage h = Some st"
    and p1: "getIndexedDB hp = Some idb" and p2: "idb_open True idb = Inr db"
    and p3: "db_store db = Some kvs" and p4: "idb_tx_throws idb = None"
    and p5: "idb_tx_error idb = None" and snap: "is_snapshot S"
    and enc: "serialize (snapshot_json S) = Inr str"
    by simp_all
  have decoded: "deserialize str = snapshot_json S"
    using is_snapshot_keys [OF snap] enc by (simp add: deserialize_serialize)
  show "snd (saveToIndexedDB hp (snapshot_json S)) = Inr ()"
    using p1 p2 p3 p4 p5 enc by (rule primary_save_load(1))
  have "snd (loadFromIndexedDB (fst (saveToIndexedDB hp (snapshot_json S))))
      = Inr (deserialize str)"
    using p1 p2 p3 p4 p5 enc by (rule primary_save_load(2))
  then show "snd (loadFromIndexedDB (fst (saveToIndexedDB hp (snapshot_json S))))
      = Inr (snapshot_json S)"
    by (simp add: decoded)
  {
    assume b: "length str \<le> 4 * 1024 * 1024 \<and> setItem st STORAGE_KEY str = Inr st'"
    then have fits: "length str \<le> 4 * 1024 * 1024"
      and room: "setItem st STORAGE_KEY str = Inr st'"
      by simp_all
    show "snd (saveToIndexedDB h (snapshot_json S)) = Inr ()"
      using f1 f2 enc fits room by (rule fallback_save_load(1))
    have "snd (loadFromIndexedDB (fst (saveToIndexedDB h (snapshot_json S))))
        = Inr (deserialize str)"
      using f1 f2 enc fits room by (rule fallback_save_load(2))
    then show "snd (loadFromIndexedDB (fst (saveToIndexedDB h (snapshot_json S))))
        = Inr (snapshot_json S)"
      by (simp add: decoded)
  }
  {
    assume "4 * 1024 * 1024 < length str"
    then show "saveToIndexedDB h (snapshot_json S)
        = (h, Inl (Error (js ''Save data too large for localStorage (~5MB limit)'')))"
      using f1 enc by (simp add: saveToIndexedDB_def saveToLocalStorage_def)
  }
  {
    assume "length str \<le> 4 * 1024 * 1024 \<and> setItem st STORAGE_KEY str = Inl e"
    then show "saveToIndexedDB h (snapshot_json S) = (h, Inl e)"
      using f1 f2 enc by (simp add: saveToIndexedDB_def saveToLocalStorage_def)
  }
qed

theorem fallback_substitution_witness:
  "getIndexedDB example_host = None
   \<and> saveToIndexedDB example_host (JObj []) = saveToLocalStorage example_host (JObj [])
   \<and> loadFromIndexedDB example_host = loadFromLocalStorage example_host
   \<and> getIndexedDB (example_host\<lparr>indexedDB := Some fresh_factory\<rparr>) = Some fresh_factory
   \<and> localStorage (fst (saveToIndexedDB (example_host\<lparr>indexedDB := Some fresh_factory\<rparr>)
         (JObj [])))
       = localStorage (example_host\<lparr>indexedDB := Some fresh_factory\<rparr>)
   \<and> localStorage (fst (loadFromIndexedDB (example_host\<lparr>indexedDB := Some fresh_factory\<rparr>)))
       = localStorage (example_host\<lparr>indexedDB := Some fresh_factory\<rparr>)
   \<and> localStorage example_host = Some example_storage
   \<and> idb_open True fresh_factory = Inr \<lparr>db_version = 2, db_store = Some []\<rparr>
   \<and> is_snapshot [(js ''/a'', [9])]
   \<and> serialize (snapshot_json [(js ''/a'', [9])]) = Inr (js ''eyIvYSI6WzldfQ=='')
   \<and> length (js ''eyIvYSI6WzldfQ=='') \<le> 4 * 1024 * 1024
   \<and> setItem example_storage STORAGE_KEY (js ''eyIvYSI6WzldfQ=='')
       = Inr \<lparr>items = [(STORAGE_KEY, js ''eyIvYSI6WzldfQ=='')], quota = 5242880\<rparr>
   \<and> snd (saveToIndexedDB (example_host\<lparr>indexedDB := Some fresh_factory\<rparr>)
         (snapshot_json [(js ''/a'', [9])])) = Inr ()
   \<and> snd (loadFromIndexedDB (fst (saveToIndexedDB (example_host\<lparr>indexedDB := Some fresh_factory\<rparr>)
         (snapshot_json [(js ''/a'', [9])])))) = Inr (snapshot_json [(js ''/a'', [9])])
   \<and> snd (saveToIndexedDB example_host (snapshot_json [(js ''/a'', [9])])) = Inr ()
   \<and> snd (loadFromIndexedDB (fst (saveToIndexedDB example_host
         (snapshot_json [(js ''/a'', [9])])))) = Inr (snapshot_json [(js ''/a'', [9])])
   \<and> is_snapshot [(js ''/a'', replicate 1600000 0)]
   \<and> (\<exists>str. serialize (snapshot_json [(js ''/a'', replicate 1600000 0)]) = Inr str
          \<and> 4 * 1024 * 1024 < length str)
   \<and> snd (saveToIndexedDB (example_host\<lparr>indexedDB := Some fresh_factory\<rparr>)
         (snapshot_json [(js ''/a'', replicate 1600000 0)])) = Inr ()
   \<and> saveToIndexedDB example_host (snapshot_json [(js ''/a'', replicate 1600000 0)])
       = (example_host, Inl (Error (js ''Save data too large for localStorage (~5MB limit)'')))
   \<and> setItem \<lparr>items = [], quota = 10\<rparr> STORAGE_KEY (js ''eyIvYSI6WzldfQ=='')
       = Inl QuotaExceededError
   \<and> saveToIndexedDB (example_host\<lparr>localStorage := Some \<lparr>items = [], quota = 10\<rparr>\<rparr>)
         (snapshot_json [(js ''/a'', [9])])
       = (example_host\<lparr>localStorage := Some \<lparr>items = [], quota = 10\<rparr>\<rparr>,
          Inl QuotaExceededError)"
proof -
  let ?hp = "example_host\<lparr>indexedDB := Some fresh_factory\<rparr>"
  let ?hq = "example_host\<lparr>localStorage := Some \<lparr>items = [], quota = 10\<rparr>\<rparr>"
  let ?db = "\<lparr>db_version = 2, db_store = Some []\<rparr>"
  let ?small = "[(js ''/a'', [9 :: nat])]"
  let ?large = "[(js ''/a'', replicate 1600000 (0 :: nat))]"
  let ?enc = "js ''eyIvYSI6WzldfQ==''"
  let ?st' = "\<lparr>items = [(STORAGE_KEY, ?enc)], quota = 5242880\<rparr>"
  have none: "getIndexedDB example_host = None" "getIndexedDB ?hq = None"
    by (simp_all add: getIndexedDB_def example_host_def)
  have some: "getIndexedDB ?hp = Some fresh_factory"
    by (simp add: getIndexedDB_def)
  have ls: "localStorage example_host = Some example_storage"
    "localStorage ?hq = Some \<lparr>items = [], quota = 10\<rparr>"
    by (simp_all add: example_host_def)
  have opened: "idb_open True fresh_factory = Inr ?db"
    by (simp add: idb_open_def fresh_factory_def IDB_VERSION_def)
  have store: "db_store ?db = Some []"
    by simp
  have flags: "idb_tx_throws fresh_factory = None" "idb_tx_error fresh_factory = None"
    by (simp_all add: fresh_factory_def)
  have snap: "is_snapshot ?small"
    by code_simp
  have enc: "serialize (snapshot_json ?small) = Inr ?enc"
    by code_simp
  have fits: "length ?enc \<le> 4 * 1024 * 1024"
    by (simp add: js_def)
  have room: "setItem example_storage STORAGE_KEY ?enc = Inr ?st'"
    by (simp add: setItem_def usage_def example_storage_def STORAGE_KEY_def js_def)
  have full: "setItem \<lparr>items = [], quota = 10\<rparr> STORAGE_KEY ?enc = Inl QuotaExceededError"
    by (simp add: setItem_def usage_def STORAGE_KEY_def js_def)
  obtain big where big: "serialize (snapshot_json [(js ''/a'', replicate (Suc 1599999) 0)]) = Inr big"
    and len: "length big = 4 * ((2 * 1599999 + 12) div 3)"
    using serialize_zeros [of 1599999] by blast
  have big': "serialize (snapshot_json ?large) = Inr big"
    using big by simp
  have over: "4 * 1024 * 1024 < length big"
    by (simp add: len)
  have "normalized_path (js ''/a'')"
    by (simp add: normalized_path_def plain_segment_def js_def)
  then have snap': "is_snapshot ?large"
    by (simp add: is_snapshot_def list_all_iff)
  have routed: "saveToIndexedDB example_host (JObj []) = saveToLocalStorage example_host (JObj [])"
    "loadFromIndexedDB example_host = loadFromLocalStorage example_host"
    using fallback_substitution [where h = example_host and files = "JObj []"] none(1)
    by simp_all
  have untouched: "localStorage (fst (saveToIndexedDB ?hp (JObj []))) = localStorage ?hp"
    "localStorage (fst (loadFromIndexedDB ?hp)) = localStorage ?hp"
    using fallback_substitution [where h = ?hp and files = "JObj []"] some
    by simp_all
  note within = fallback_substitution [where h = example_host and st = example_storage
      and hp = ?hp and idb = fresh_factory and db = ?db and kvs = "[]" and S = ?small
      and str = ?enc and st' = ?st',
      THEN conjunct2, THEN conjunct2]
  have same: "snd (saveToIndexedDB ?hp (snapshot_json ?small)) = Inr ()"
    "snd (loadFromIndexedDB (fst (saveToIndexedDB ?hp (snapshot_json ?small))))
       = Inr (snapshot_json ?small)"
    "snd (saveToIndexedDB example_host (snapshot_json ?small)) = Inr ()"
    "snd (loadFromIndexedDB (fst (saveToIndexedDB example_host (snapshot_json ?small))))
       = Inr (snapshot_json ?small)"
    using within none(1) ls(1) some opened store flags snap enc fits room
    by simp_all
  note above = fallback_substitution [where h = example_host and st = example_storage
      and hp = ?hp and idb = fresh_factory and db = ?db and kvs = "[]" and S = ?large
      and str = big,
      THEN conjunct2, THEN conjunct2]
  have differ: "snd (saveToIndexedDB ?hp (snapshot_json ?large)) = Inr ()"
    "saveToIndexedDB example_host (snapshot_json ?large)
       = (example_host, Inl (Error (js ''Save data too large for localStorage (~5MB limit)'')))"
    using above none(1) ls(1) some opened store flags snap' big' over
    by simp_all
  note quota = fallback_substitution [where h = ?hq and st = "\<lparr>items = [], quota = 10\<rparr>"
      and hp = ?hp and idb = fresh_factory and db = ?db and kvs = "[]" and S = ?small
      and str = ?enc and e = QuotaExceededError,
      THEN conjunct2, THEN conjunct2]
  have refused: "saveToIndexedDB ?hq (snapshot_json ?small) = (?hq, Inl QuotaExceededError)"
    using quota none(2) ls(2) some opened store flags snap enc fits full
    by simp
  have ex: "\<exists>str. serialize (snapshot_json ?large) = Inr str \<and> 4 * 1024 * 1024 < length str"
    using big' over by blast
  from none(1) routed some untouched ls(1) opened snap enc fits room same snap' ex differ
    full refused
  show ?thesis
    by (simp only: simp_thms)
qed

section \<open>Paths of a snapshot\<close>

lemma abs_path_Cons: "abs_path (s # segs) = 0x2F # s @ abs_path segs"
  by (simp add: abs_path_def)

lemma abs_path_snoc: "abs_path (segs @ [s]) = abs_path segs @ 0x2F # s"
  by (simp add: abs_path_def)

lemma abs_path_Nil_iff: "abs_path segs = [] \<longleftrightarrow> segs = []"
  by (cases segs) (simp_all add: abs_path_def)

lemma split_on_no_sep: "c \<notin> set s \<Longrightarrow> split_on c s = [s]"
  by (induction s) auto

lemma split_on_append: "c \<notin> set s \<Longrightarrow> split_on c (s @ c # r) = s # split_on c r"
  by (induction s) auto

lemma split_on_segment_path:
  "list_all plain_segment segs \<Longrightarrow> 0x2F \<notin> set s \<Longrightarrow> split_on 0x2F (s @ abs_path segs) = s # segs"
proof (induction segs arbitrary: s)
  case Nil
  then show ?case by (simp add: abs_path_def split_on_no_sep)
next
  case (Cons a segs)
  then have "0x2F \<notin> set a"
    by (simp add: plain_segment_def)
  with Cons show ?case
    by (simp add: abs_path_Cons split_on_append)
qed

lemma split_on_abs_path:
  "list_all plain_segment segs \<Longrightarrow> split_on 0x2F (abs_path segs) = [] # segs"
  using split_on_segment_path [of segs "[]"] by simp

lemma split_on_not_Nil: "split_on c p \<noteq> []"
  by (induction p) (auto split: list.splits)

lemma join_split_on:
  "split_on c p = s # segs \<Longrightarrow> p = s @ concat (map ((#) c) segs)"
proof (induction p arbitrary: s segs)
  case Nil
  then show ?case by simp
next
  case (Cons x xs)
  obtain t ts where sp: "split_on c xs = t # ts"
    using split_on_not_Nil [of c xs] by (cases "split_on c xs") auto
  show ?case
  proof (cases "x = c")
    case True
    with Cons.prems sp have "s = []" "segs = t # ts" by auto
    with Cons.IH [OF sp] True show ?thesis by simp
  next
    case False
    with Cons.prems sp have "s = x # t" "segs = ts" by auto
    with Cons.IH [OF sp] show ?thesis by simp
  qed
qed

lemma normalized_path_abs:
  assumes "normalized_path p"
  shows "\<exists>segs. segs \<noteq> [] \<and> list_all plain_segment segs \<and> p = abs_path segs"
proof -
  from assms obtain segs where sp: "split_on 0x2F p = [] # segs" and ne: "segs \<noteq> []"
    and pl: "list_all plain_segment segs"
    by (auto simp: normalized_path_def split: list.splits)
  from join_split_on [OF sp] have "p = abs_path segs"
    by (simp add: abs_path_def)
  with ne pl show ?thesis by blast
qed

lemma plain_parts_nonempty: "list_all plain_segment segs \<Longrightarrow> filter (\<lambda>p. p \<noteq> []) segs = segs"
  by (induction segs) (auto simp: plain_segment_def)

lemma normalize_rev_plain: "list_all plain_segment xs \<Longrightarrow> normalize_rev 0 xs = rev xs"
  by (induction xs) (auto simp: plain_segment_def)

lemma resolve_abs_path: "list_all plain_segment segs \<Longrightarrow> resolve (abs_path segs) = segs"
  by (simp add: resolve_def split_on_abs_path plain_parts_nonempty normalize_rev_plain)

lemma resolve_root_child: "plain_segment name \<Longrightarrow> resolve (js ''/'' @ 0x2F # name) = [name]"
proof -
  assume p: "plain_segment name"
  then have "split_on 0x2F (js ''/'' @ 0x2F # name) = [[], [], name]"
    by (simp add: js_def plain_segment_def split_on_no_sep)
  with p show ?thesis
    by (simp add: resolve_def plain_segment_def)
qed

lemma lastIndexOf_absent: "c \<notin> set s \<Longrightarrow> lastIndexOf s c = - 1"
  by (induction s) auto

lemma lastIndexOf_last: "c \<notin> set name \<Longrightarrow> lastIndexOf (xs @ c # name) c = int (length xs)"
  by (induction xs) (auto simp: lastIndexOf_absent)

lemma substring_front: "substring (xs @ ys) 0 (int (length xs)) = xs"
  by (simp add: substring_def Let_def)

lemma substring_back:
  "substring (xs @ c # name) (int (length xs) + 1) (int (length (xs @ c # name))) = name"
  by (simp add: substring_def Let_def max_def min_def nat_add_distrib)

section \<open>One round of the restore loop\<close>

lemma mkdirs_eq_parts:
  "list_all plain_segment (pre @ todo) \<Longrightarrow> mkdirs fs (abs_path pre) todo = mkdirs_parts fs pre todo"
proof (induction todo arbitrary: fs pre)
  case Nil
  then show ?case by simp
next
  case (Cons s todo)
  then have pl: "list_all plain_segment (pre @ [s])" and rest: "list_all plain_segment ((pre @ [s]) @ todo)"
    by simp_all
  have mk: "FS_mkdir fs (abs_path pre @ 0x2F # s) = mknod fs (pre @ [s]) (Dir fmempty)" for fs
    using resolve_abs_path [OF pl] by (simp add: FS_mkdir_def abs_path_snoc)
  show ?case
    using Cons.IH [OF rest] by (simp add: mk abs_path_snoc split: sum.splits)
qed

lemma js_truncate_int: "js_truncate m 0 = m"
  by (simp add: js_truncate_def sgn_if)

lemma new_Uint8Array_bytes:
  "list_all (\<lambda>b. b < 256) bs \<Longrightarrow> new_Uint8Array eng (bytes_json bs) = Inr bs"
  by (simp add: new_Uint8Array_def bytes_json_def ToNumber_def ToUint8_def js_truncate_int
        comp_def list_all_iff map_idI nat_mod_distrib)

lemma abs_path_not_root: "list_all plain_segment segs \<Longrightarrow> segs \<noteq> [] \<Longrightarrow> abs_path segs \<noteq> js ''/''"
  by (cases segs) (auto simp: abs_path_Cons js_def plain_segment_def)

lemma plain_segment_slash: "plain_segment name \<Longrightarrow> 0x2F \<notin> set name \<and> name \<noteq> []"
  by (simp add: plain_segment_def)


lemma restore_entry_parts:
  assumes "list_all plain_segment (segs @ [name])" and "list_all (\<lambda>b. b < 256) bs"
  shows "restore_entry eng fs (abs_path (segs @ [name]), bytes_json bs)
           = restore_parts fs [] segs name bs"
proof -
  let ?path = "abs_path (segs @ [name])"
  from assms(1) have pl: "list_all plain_segment segs" and nm: "plain_segment name"
    by simp_all
  note nms = plain_segment_slash [OF nm]
  have path: "?path = abs_path segs @ 0x2F # name"
    by (rule abs_path_snoc)
  have li: "lastIndexOf ?path 0x2F = int (length (abs_path segs))"
    unfolding path using nms by (simp add: lastIndexOf_last)
  have d: "substring ?path 0 (lastIndexOf ?path 0x2F) = abs_path segs"
    unfolding li unfolding path by (rule substring_front)
  have n: "substring ?path (lastIndexOf ?path 0x2F + 1) (int (length ?path)) = name"
    unfolding li unfolding path by (rule substring_back)
  have un: "(if analyzePath_exists fs' ?path then FS_unlink fs' ?path else Inr fs')
      = (case lookup fs' ([] @ segs @ [name]) of
           Inl e \<Rightarrow> Inr fs'
         | Inr n \<Rightarrow> remove_file fs' ([] @ segs @ [name]))" for fs'
    using resolve_abs_path [OF assms(1)]
    by (simp add: analyzePath_exists_def FS_unlink_def abs_path_Nil_iff split: sum.splits)
  have u8: "new_Uint8Array eng (bytes_json bs) = Inr bs"
    using assms(2) by (rule new_Uint8Array_bytes)
  show ?thesis
  proof (cases "segs = []")
    case True
    have cr: "FS_createDataFile fs' (js ''/'') name bs
        = mknod fs' ([] @ segs @ [name]) (File bs 511)" for fs'
      using resolve_root_child [OF nm] nms True by (simp add: FS_createDataFile_def)
    have d0: "substring ?path 0 (lastIndexOf ?path 0x2F) = []"
      using d True by (simp add: abs_path_def)
    have mp: "mkdirs_parts fs [] segs = (fs, None)"
      using True by simp
    show ?thesis
      unfolding restore_entry_def restore_parts_def finish_entry_def
      by (simp only: d0 n un u8 cr mp Let_def prod.case sum.case option.case if_True if_False
            simp_thms)
  next
    case False
    have cr: "FS_createDataFile fs' (abs_path segs) name bs
        = mknod fs' ([] @ segs @ [name]) (File bs 511)" for fs'
      using resolve_abs_path [OF assms(1)] nms by (simp add: FS_createDataFile_def abs_path_snoc)
    have sp: "filter (\<lambda>p. p \<noteq> []) (split_on 0x2F (abs_path segs)) = segs"
      using pl by (simp add: split_on_abs_path plain_parts_nonempty)
    have mk: "mkdirs fs [] segs = mkdirs_parts fs [] segs"
      using mkdirs_eq_parts [of "[]" segs fs] pl by (simp add: abs_path_def)
    have nr: "abs_path segs \<noteq> js ''/''" "abs_path segs \<noteq> []"
      using abs_path_not_root [OF pl False] False by (simp_all add: abs_path_Nil_iff)
    show ?thesis
      unfolding restore_entry_def restore_parts_def finish_entry_def
      by (simp only: d n un u8 cr sp mk nr Let_def prod.case sum.case option.case if_True if_False
            not_False_eq_True simp_thms)
  qed
qed

lemma fmupd_same: "fmlookup d s = Some ch \<Longrightarrow> fmupd s ch d = d"
  by (rule fmap_ext) auto

lemma fmupd_fmdrop: "fmupd k v (fmdrop k d) = fmupd k v d"
  by (rule fmap_ext) simp

lemma mknod_deep:
  "ps \<noteq> [] \<Longrightarrow>
   mknod (Dir d) (p # ps) new =
     (case fmlookup d p of
        None \<Rightarrow> Inl ENOENT
      | Some ch \<Rightarrow>
          (case mknod ch ps new of Inl e \<Rightarrow> Inl e | Inr ch' \<Rightarrow> Inr (Dir (fmupd p ch' d))))"
  by (cases ps) (simp_all split: option.splits)

lemma remove_file_deep:
  "ps \<noteq> [] \<Longrightarrow>
   remove_file (Dir d) (p # ps) =
     (case fmlookup d p of
        None \<Rightarrow> Inl ENOENT
      | Some ch \<Rightarrow>
          (case remove_file ch ps of Inl e \<Rightarrow> Inl e | Inr ch' \<Rightarrow> Inr (Dir (fmupd p ch' d))))"
  by (cases ps) (simp_all split: option.splits)

lemma place_deep:
  "ps \<noteq> [] \<Longrightarrow>
   place (Dir d) (s # ps) bs =
     (case fmlookup d s of
        None \<Rightarrow> Dir (fmupd s (place (Dir fmempty) ps bs) d)
      | Some ch \<Rightarrow> Dir (fmupd s (place ch ps bs) d))"
  by (cases ps) (simp_all split: option.splits)

lemma lift_mkdirs:
  "fmlookup d s = Some ch \<Longrightarrow>
   mkdirs_parts (Dir d) (s # pre) todo =
     (case mkdirs_parts ch pre todo of (ch', err) \<Rightarrow> (Dir (fmupd s ch' d), err))"
proof (induction todo arbitrary: d ch pre)
  case Nil
  then show ?case by (simp add: fmupd_same)
next
  case (Cons x todo)
  show ?case
  proof (cases "mknod ch (pre @ [x]) (Dir fmempty)")
    case (Inl e)
    with Cons show ?thesis
      by (simp add: mknod_deep fmupd_same)
  next
    case (Inr ch')
    have "fmlookup (fmupd s ch' d) s = Some ch'" by simp
    from Cons.IH [OF this, of "pre @ [x]"] Inr Cons.prems show ?thesis
      by (simp add: mknod_deep)
  qed
qed

lemma lift_restore:
  assumes "fmlookup d s = Some ch"
  shows "restore_parts (Dir d) (s # pre) segs name bs
           = Dir (fmupd s (restore_parts ch pre segs name bs) d)"
proof -
  obtain ch1 err where mk: "mkdirs_parts ch pre segs = (ch1, err)"
    by (cases "mkdirs_parts ch pre segs")
  let ?d1 = "fmupd s ch1 d"
  let ?q = "pre @ segs @ [name]"
  have mk': "mkdirs_parts (Dir d) (s # pre) segs = (Dir ?d1, err)"
    using lift_mkdirs [OF assms, of pre segs] mk by simp
  have q: "?q \<noteq> []" by simp
  show ?thesis
  proof (cases err)
    case (Some e)
    with mk mk' show ?thesis by (simp add: restore_parts_def finish_entry_def)
  next
    case None
    with mk mk' show ?thesis
      by (auto simp: restore_parts_def finish_entry_def remove_file_deep [OF q] mknod_deep [OF q]
            fmupd_same
            split: sum.splits)
  qed
qed

lemma restore_parts_descend:
  "restore_parts (Dir d) [] (s # t) name bs =
     restore_parts
       (case fmlookup d s of None \<Rightarrow> Dir (fmupd s (Dir fmempty) d) | Some ch \<Rightarrow> Dir d)
       [s] t name bs"
  by (simp add: restore_parts_def EEXIST_def split: option.splits)

lemma restore_parts_place:
  "restore_parts fs [] segs name bs = place fs (segs @ [name]) bs"
proof (induction segs arbitrary: fs)
  case Nil
  show ?case
  proof (cases fs)
    case (File c m)
    then show ?thesis by (simp add: restore_parts_def finish_entry_def)
  next
    case (Dir d)
    then show ?thesis
      by (auto simp: restore_parts_def finish_entry_def fmupd_fmdrop
            split: option.splits node.splits)
  qed
next
  case (Cons s t)
  show ?case
  proof (cases fs)
    case (File c m)
    then show ?thesis by (simp add: restore_parts_def finish_entry_def ENOTDIR_def)
  next
    case (Dir d)
    have ne: "t @ [name] \<noteq> []" by simp
    show ?thesis
    proof (cases "fmlookup d s")
      case None
      have "restore_parts (Dir (fmupd s (Dir fmempty) d)) [s] t name bs
          = Dir (fmupd s (restore_parts (Dir fmempty) [] t name bs) (fmupd s (Dir fmempty) d))"
        by (rule lift_restore) simp
      with None Dir Cons.IH [of "Dir fmempty"] show ?thesis
        by (simp add: restore_parts_descend place_deep [OF ne])
    next
      case (Some ch)
      from lift_restore [OF Some, of "[]" t name bs] Some Dir Cons.IH [of ch] show ?thesis
        by (simp add: restore_parts_descend place_deep [OF ne])
    qed
  qed
qed

lemma restore_entry_place:
  assumes "normalized_path p" and "list_all (\<lambda>b. b < 256) bs"
  shows "restore_entry eng fs (p, bytes_json bs) = place fs (resolve p) bs"
proof -
  from normalized_path_abs [OF assms(1)] obtain segs
    where segs: "segs \<noteq> []" "list_all plain_segment segs" "p = abs_path segs"
    by blast
  then obtain pre name where sn: "segs = pre @ [name]"
    by (metis rev_exhaust)
  have "restore_entry eng fs (abs_path (pre @ [name]), bytes_json bs)
      = restore_parts fs [] pre name bs"
    using segs(2) assms(2) unfolding sn by (rule restore_entry_parts)
  then show ?thesis
    using segs(2,3) by (simp add: sn restore_parts_place resolve_abs_path)
qed

lemma place_Dir: "\<exists>d'. place (Dir d) segs bs = Dir d'"
  by (cases "(Dir d, segs, bs)" rule: place.cases) (auto split: option.splits node.splits)

lemma clear_way_empty: "segs \<noteq> [] \<Longrightarrow> clear_way (Dir fmempty) segs"
  by (cases "(Dir fmempty :: node, segs)" rule: clear_way.cases) auto

lemma place_lookup:
  "clear_way fs segs \<Longrightarrow> lookup (place fs segs bs) segs = Inr (File bs 511)"
proof (induction fs segs bs rule: place.induct)
  case (3 d name bs)
  then show ?case by (auto split: option.splits node.splits)
next
  case (4 d s t u bs)
  then show ?case by (auto simp: clear_way_empty split: option.splits)
qed simp_all

lemma place_parents:
  "clear_way fs segs \<Longrightarrow> k < length segs \<Longrightarrow> is_dir_at (place fs segs bs) (take k segs)"
proof (induction fs segs bs arbitrary: k rule: place.induct)
  case (1 c m segs bs)
  then show ?case by simp
next
  case (2 d bs)
  then show ?case by simp
next
  case (3 d name bs)
  then show ?case by (auto simp: is_dir_at_def split: option.splits node.splits)
next
  case (4 d s t u bs)
  show ?case
  proof (cases k)
    case 0
    then show ?thesis by (auto simp: is_dir_at_def split: option.splits)
  next
    case (Suc j)
    with "4.prems" have j: "j < length (t # u)" by simp
    show ?thesis
    proof (cases "fmlookup d s")
      case None
      from "4.IH"(1) [OF None clear_way_empty j] None Suc show ?thesis
        by (simp add: is_dir_at_def)
    next
      case (Some ch)
      with "4.prems" have "clear_way ch (t # u)" by simp
      from "4.IH"(2) [OF Some this j] Some Suc show ?thesis
        by (simp add: is_dir_at_def)
    qed
  qed
qed

lemma fmupd_eq_iff: "fmupd n x m = m \<longleftrightarrow> fmlookup m n = Some x"
proof
  assume "fmupd n x m = m"
  then have "fmlookup (fmupd n x m) n = fmlookup m n" by simp
  then show "fmlookup m n = Some x" by simp
next
  assume "fmlookup m n = Some x"
  then show "fmupd n x m = m" by (rule fmupd_same)
qed

lemma place_File: "place (File c m) segs bs = File c m"
  by simp

lemma place_single_settled:
  "place (Dir m) [n] d = Dir m \<longleftrightarrow>
     (case fmlookup m n of
        None \<Rightarrow> False
      | Some (Dir d') \<Rightarrow> True
      | Some (File c md) \<Rightarrow> c = d \<and> md = 511)"
  by (auto simp: fmupd_eq_iff split: option.splits node.splits)

lemma place_deep_settled:
  "r \<noteq> [] \<Longrightarrow>
   place (Dir m) (n # r) d = Dir m \<longleftrightarrow>
     (case fmlookup m n of None \<Rightarrow> False | Some ch \<Rightarrow> place ch r d = ch)"
  by (auto simp: place_deep fmupd_eq_iff split: option.splits)

lemma place_node_kind:
  "(\<exists>c md. ch = File c md \<and> place ch r e = File c md) \<or> (\<exists>d1 d2. ch = Dir d1 \<and> place ch r e = Dir d2)"
  using place_Dir by (cases ch) auto

lemma place_absorb:
  "place t p d = t \<Longrightarrow> p \<noteq> q \<Longrightarrow> place (place t q e) p d = place t q e"
proof (induction p arbitrary: t q)
  case Nil
  show ?case
  proof (cases t)
    case (File c md)
    then show ?thesis by simp
  next
    case (Dir m)
    obtain m' where "place (Dir m) q e = Dir m'"
      using place_Dir by blast
    with Dir show ?thesis by simp
  qed
next
  case (Cons n r)
  show ?case
  proof (cases t)
    case (File c md)
    then show ?thesis by simp
  next
    case (Dir m)
    show ?thesis
    proof (cases q)
      case Nil
      with Cons.prems Dir show ?thesis by simp
    next
      case q: (Cons n' r')
      show ?thesis
      proof (cases "n = n'")
        case False
        have same: "fmlookup m' n = fmlookup m n" if "place (Dir m) (n' # r') e = Dir m'" for m'
          using that False
          by (cases "r' = []") (auto simp: place_deep split: option.splits node.splits)
        obtain m' where m': "place (Dir m) (n' # r') e = Dir m'"
          using place_Dir by blast
        show ?thesis
        proof (cases "r = []")
          case True
          with Cons.prems(1) Dir same [OF m'] show ?thesis
            by (simp add: q m' place_single_settled del: place.simps)
        next
          case r: False
          with Cons.prems(1) Dir same [OF m'] show ?thesis
            by (simp add: q m' place_deep_settled del: place.simps)
        qed
      next
        case True
        with Cons.prems(2) q have rr: "r \<noteq> r'" by simp
        show ?thesis
        proof (cases "r = []")
          case r: True
          with rr have r': "r' \<noteq> []" by simp
          from Cons.prems(1) Dir r obtain ch where ch: "fmlookup m n = Some ch"
            by (auto simp: place_single_settled simp del: place.simps split: option.splits)
          from place_node_kind [of ch r' e] Cons.prems(1) Dir r ch show ?thesis
            by (auto simp: q True place_deep [OF r'] place_single_settled fmupd_eq_iff
                simp del: place.simps split: option.splits node.splits)
        next
          case r: False
          from Cons.prems(1) Dir r obtain ch where ch: "fmlookup m n = Some ch"
            and st: "place ch r d = ch"
            by (auto simp: place_deep_settled simp del: place.simps split: option.splits)
          show ?thesis
          proof (cases "r' = []")
            case r': True
            have "place ch2 r d = ch2" if "ch2 = File c md" for ch2 c md
              using that by simp
            with ch st Dir show ?thesis
              by (auto simp: q True r' place_deep_settled [OF r] split: option.splits node.splits)
          next
            case r': False
            from Cons.IH [OF st rr] ch Dir show ?thesis
              by (simp add: q True place_deep [OF r'] place_deep_settled [OF r] del: place.simps)
          qed
        qed
      qed
    qed
  qed
qed

lemma place_settled: "place (place t p d) p d = place t p d"
proof (induction t p d rule: place.induct)
  case (3 m name bs)
  then show ?case by (auto split: option.splits node.splits)
next
  case (4 m s t u bs)
  have ne: "t # u \<noteq> []" by simp
  from 4 show ?case
    by (cases "fmlookup m s") (simp_all add: place_deep [OF ne] del: place.simps)
qed simp_all

section \<open>Properties of the restore engine\<close>

lemma place_all_absorb:
  "place t p d = t \<Longrightarrow> p \<notin> fst ` set es \<Longrightarrow> place (place_all es t) p d = place_all es t"
proof (induction es arbitrary: t)
  case Nil
  then show ?case by (simp add: place_all_def)
next
  case (Cons x es)
  obtain q e where x: "x = (q, e)" by (cases x)
  with Cons.prems have "p \<noteq> q" and rest: "p \<notin> fst ` set es" by auto
  from place_absorb [OF Cons.prems(1) this(1)] have "place (place t q e) p d = place t q e" .
  from Cons.IH [OF this rest] show ?case
    by (simp add: place_all_def x)
qed

lemma place_all_settled:
  "distinct (map fst es) \<Longrightarrow> (p, d) \<in> set es \<Longrightarrow> place (place_all es t) p d = place_all es t"
proof (induction es arbitrary: t)
  case Nil
  then show ?case by simp
next
  case (Cons x es)
  obtain q e where x: "x = (q, e)" by (cases x)
  show ?case
  proof (cases "(p, d) = (q, e)")
    case True
    with Cons.prems x have "p \<notin> fst ` set es" by auto
    from place_all_absorb [OF place_settled this, of t d] True show ?thesis
      by (simp add: place_all_def x)
  next
    case False
    with Cons.prems x have "distinct (map fst es)" "(p, d) \<in> set es" by auto
    from Cons.IH [OF this] show ?thesis
      by (simp add: place_all_def x)
  qed
qed

lemma place_all_identity:
  "\<forall>(p, d) \<in> set es. place t p d = t \<Longrightarrow> place_all es t = t"
  by (induction es) (auto simp: place_all_def)

lemma place_all_idempotent:
  assumes "distinct (map fst es)"
  shows "place_all es (place_all es t) = place_all es t"
  by (rule place_all_identity) (auto intro: place_all_settled [OF assms])

lemma normalized_path_resolve: "normalized_path p \<Longrightarrow> abs_path (resolve p) = p"
  using normalized_path_abs [of p] by (auto simp: resolve_abs_path)

lemma snapshot_parts_distinct:
  assumes "is_snapshot S"
  shows "distinct (map fst (map (\<lambda>(p, bs). (resolve p, bs)) S))"
proof -
  have "inj_on resolve (fst ` set S)"
  proof (rule inj_onI)
    fix p q
    assume "p \<in> fst ` set S" "q \<in> fst ` set S" "resolve p = resolve q"
    moreover from this assms have "normalized_path p" "normalized_path q"
      by (auto simp: is_snapshot_def list_all_iff)
    ultimately show "p = q"
      by (metis normalized_path_resolve)
  qed
  moreover have "distinct (map fst S)"
    using assms by (simp add: is_snapshot_def)
  ultimately have "distinct (map resolve (map fst S))"
    by (subst distinct_map) simp
  moreover have "map fst (map (\<lambda>(p, bs). (resolve p, bs)) S) = map resolve (map fst S)"
    by (induction S) auto
  ultimately show ?thesis by (simp only:)
qed

lemma restoreSaveFiles_snapshot:
  assumes "is_snapshot S"
  shows "restoreSaveFiles eng fs (snapshot_json S)
           = place_all (map (\<lambda>(p, bs). (resolve p, bs)) S) fs"
proof -
  have props: "enum_props (snapshot_json S) = map (\<lambda>(p, bs). (p, bytes_json bs)) S"
    using is_snapshot_keys [OF assms]
    by (simp add: enum_props_def snapshot_json_def snapshot_props_plain)
  have "list_all (\<lambda>(p, bs). normalized_path p \<and> list_all (\<lambda>b. b < 256) bs) S"
    using assms by (simp add: is_snapshot_def)
  then have "fold (\<lambda>entry fs. restore_entry eng fs entry) (map (\<lambda>(p, bs). (p, bytes_json bs)) S) fs
      = place_all (map (\<lambda>(p, bs). (resolve p, bs)) S) fs"
  proof (induction S arbitrary: fs)
    case Nil
    then show ?case by (simp add: place_all_def)
  next
    case (Cons x S)
    obtain p bs where x: "x = (p, bs)" by (cases x)
    with Cons.prems have "normalized_path p" "list_all (\<lambda>b. b < 256) bs" by simp_all
    then have "restore_entry eng fs (p, bytes_json bs) = place fs (resolve p) bs"
      by (rule restore_entry_place)
    with Cons show ?case
      by (simp add: x place_all_def)
  qed
  then show ?thesis
    by (simp add: restoreSaveFiles_def props)
qed

lemma place_blocked: "\<not> clear_way fs segs \<Longrightarrow> place fs segs bs = fs"
proof (induction fs segs bs rule: place.induct)
  case (3 d name bs)
  then show ?case by (auto split: option.splits node.splits)
next
  case (4 d s t u bs)
  then show ?case by (auto simp: fmupd_same split: option.splits)
qed simp_all

text \<open>
  C6: on a snapshot, \<open>restoreSaveFiles\<close> is the rounds of its entries, one after the
  other in the order of the snapshot, each from the filesystem the round before
  left, whether that round succeeded or was given up; on the empty snapshot it
  returns the filesystem as it is. For every entry and every filesystem the round
  starts from: when no entry on the way to the target is a regular file and the
  target is not a directory, the round ends with the file in place, holding the
  bytes of the entry with mode \<open>0777\<close>, whether or not a file was there before, and
  with every prefix of its path a directory, whether it existed before or was
  created; otherwise the round is given up and the filesystem is as it was. At
  the end of the loop every entry whose way is clear has its file in place with
  its bytes, whatever happened to the other entries.
\<close>

theorem restore_entry_effect:
  assumes "is_snapshot S"
  shows "restoreSaveFiles eng fs (snapshot_json S)
           = fold (\<lambda>(p, bs) t. restore_entry eng t (p, bytes_json bs)) S fs
         \<and> (\<forall>(p, bs) \<in> set S.
              (clear_way t (resolve p) \<longrightarrow>
                 lookup (restore_entry eng t (p, bytes_json bs)) (resolve p) = Inr (File bs 511)
                 \<and> (\<forall>k < length (resolve p).
                       is_dir_at (restore_entry eng t (p, bytes_json bs)) (take k (resolve p))))
              \<and> (\<not> clear_way t (resolve p) \<longrightarrow> restore_entry eng t (p, bytes_json bs) = t)
              \<and> (clear_way (restoreSaveFiles eng fs (snapshot_json S)) (resolve p) \<longrightarrow>
                   lookup (restoreSaveFiles eng fs (snapshot_json S)) (resolve p)
                     = Inr (File bs 511)))"
proof (intro conjI ballI)
  have entries: "list_all (\<lambda>(p, bs). normalized_path p \<and> list_all (\<lambda>b. b < 256) bs) S"
    using assms by (simp add: is_snapshot_def)
  have props: "enum_props (snapshot_json S) = map (\<lambda>(p, bs). (p, bytes_json bs)) S"
    using is_snapshot_keys [OF assms]
    by (simp add: enum_props_def snapshot_json_def snapshot_props_plain)
  have "fold (\<lambda>entry t. restore_entry eng t entry) (map (\<lambda>(p, bs). (p, bytes_json bs)) S) fs
      = fold (\<lambda>(p, bs) t. restore_entry eng t (p, bytes_json bs)) S fs"
    by (induction S arbitrary: fs) (simp_all add: case_prod_beta)
  then show "restoreSaveFiles eng fs (snapshot_json S)
      = fold (\<lambda>(p, bs) t. restore_entry eng t (p, bytes_json bs)) S fs"
    by (simp only: restoreSaveFiles_def props)
  fix x
  assume x: "x \<in> set S"
  obtain p bs where pb: "x = (p, bs)"
    by (cases x)
  from entries x pb have np: "normalized_path p" and small: "list_all (\<lambda>b. b < 256) bs"
    by (auto simp: list_all_iff)
  have entry: "\<And>u. restore_entry eng u (p, bytes_json bs) = place u (resolve p) bs"
    using np small by (rule restore_entry_place)
  let ?final = "restoreSaveFiles eng fs (snapshot_json S)"
  have final: "?final = place_all (map (\<lambda>(p, bs). (resolve p, bs)) S) fs"
    using assms by (rule restoreSaveFiles_snapshot)
  have "(resolve p, bs) \<in> set (map (\<lambda>(p, bs). (resolve p, bs)) S)"
    using x pb by force
  from place_all_settled [OF snapshot_parts_distinct [OF assms] this, of fs]
  have settled: "place ?final (resolve p) bs = ?final"
    by (simp only: final)
  have last: "clear_way ?final (resolve p) \<longrightarrow> lookup ?final (resolve p) = Inr (File bs 511)"
    using place_lookup [of ?final "resolve p" bs] by (simp only: settled) simp
  show "case x of
         (p, bs) \<Rightarrow>
           (clear_way t (resolve p) \<longrightarrow>
              lookup (restore_entry eng t (p, bytes_json bs)) (resolve p) = Inr (File bs 511)
              \<and> (\<forall>k < length (resolve p).
                    is_dir_at (restore_entry eng t (p, bytes_json bs)) (take k (resolve p))))
           \<and> (\<not> clear_way t (resolve p) \<longrightarrow> restore_entry eng t (p, bytes_json bs) = t)
           \<and> (clear_way ?final (resolve p) \<longrightarrow> lookup ?final (resolve p) = Inr (File bs 511))"
    using last unfolding pb
    by (simp add: entry place_lookup place_parents place_blocked)
qed

theorem restore_entry_effect_witness:
  "is_snapshot [(js ''/a/b'', [1]), (js ''/c/d'', [2])]
   \<and> restoreSaveFiles example_engine blocked_fs (snapshot_json []) = blocked_fs
   \<and> \<not> clear_way blocked_fs (resolve (js ''/a/b''))
   \<and> restore_entry example_engine blocked_fs (js ''/a/b'', bytes_json [1]) = blocked_fs
   \<and> clear_way blocked_fs (resolve (js ''/c/d''))
   \<and> lookup (restore_entry example_engine blocked_fs (js ''/c/d'', bytes_json [2]))
         (resolve (js ''/c/d'')) = Inr (File [2] 511)
   \<and> is_dir_at (restore_entry example_engine blocked_fs (js ''/c/d'', bytes_json [2]))
         (take 1 (resolve (js ''/c/d'')))
   \<and> restoreSaveFiles example_engine blocked_fs
         (snapshot_json [(js ''/a/b'', [1]), (js ''/c/d'', [2])])
       = restore_entry example_engine
           (restore_entry example_engine blocked_fs (js ''/a/b'', bytes_json [1]))
           (js ''/c/d'', bytes_json [2])
   \<and> restoreSaveFiles example_engine blocked_fs
         (snapshot_json [(js ''/a/b'', [1]), (js ''/c/d'', [2])])
       = Dir (fmupd (js ''a'') (File [1] 438)
           (fmupd (js ''c'') (Dir (fmupd (js ''d'') (File [2] 511) fmempty)) fmempty))
   \<and> lookup (restoreSaveFiles example_engine blocked_fs
         (snapshot_json [(js ''/a/b'', [1]), (js ''/c/d'', [2])])) (resolve (js ''/c/d''))
       = Inr (File [2] 511)"
proof -
  let ?S = "[(js ''/a/b'', [1 :: nat]), (js ''/c/d'', [2])]"
  have snap: "is_snapshot ?S"
    by code_simp
  have empty: "is_snapshot []"
    by code_simp
  have blocked: "\<not> clear_way blocked_fs (resolve (js ''/a/b''))"
    by code_simp
  have clear: "clear_way blocked_fs (resolve (js ''/c/d''))"
    by code_simp
  have len: "length (resolve (js ''/c/d'')) = 2"
    by code_simp
  have final: "restoreSaveFiles example_engine blocked_fs (snapshot_json ?S)
       = Dir (fmupd (js ''a'') (File [1] 438)
           (fmupd (js ''c'') (Dir (fmupd (js ''d'') (File [2] 511) fmempty)) fmempty))"
    by code_simp
  have open_end: "clear_way (Dir (fmupd (js ''a'') (File [1] 438)
           (fmupd (js ''c'') (Dir (fmupd (js ''d'') (File [2] 511) fmempty)) fmempty)))
         (resolve (js ''/c/d''))"
    by code_simp
  from restore_entry_effect [OF empty, of example_engine blocked_fs]
  have base: "restoreSaveFiles example_engine blocked_fs (snapshot_json []) = blocked_fs"
    by simp
  note all = restore_entry_effect [OF snap, of example_engine blocked_fs blocked_fs]
  from all have loop: "restoreSaveFiles example_engine blocked_fs (snapshot_json ?S)
       = restore_entry example_engine
           (restore_entry example_engine blocked_fs (js ''/a/b'', bytes_json [1]))
           (js ''/c/d'', bytes_json [2])"
    by simp
  from all blocked
  have first: "restore_entry example_engine blocked_fs (js ''/a/b'', bytes_json [1]) = blocked_fs"
    by simp
  from all clear
  have made: "lookup (restore_entry example_engine blocked_fs (js ''/c/d'', bytes_json [2]))
         (resolve (js ''/c/d'')) = Inr (File [2] 511)"
    and dirs: "\<forall>k < length (resolve (js ''/c/d'')).
        is_dir_at (restore_entry example_engine blocked_fs (js ''/c/d'', bytes_json [2]))
          (take k (resolve (js ''/c/d'')))"
    by simp_all
  from dirs len have dir1: "is_dir_at (restore_entry example_engine blocked_fs (js ''/c/d'', bytes_json [2]))
         (take 1 (resolve (js ''/c/d'')))"
    by simp
  from open_end have "clear_way (restoreSaveFiles example_engine blocked_fs (snapshot_json ?S))
         (resolve (js ''/c/d''))"
    by (simp only: final)
  with all [THEN conjunct2]
  have kept: "lookup (restoreSaveFiles example_engine blocked_fs (snapshot_json ?S))
         (resolve (js ''/c/d'')) = Inr (File [2] 511)"
    by simp
  from snap base blocked first clear made dir1 loop final kept show ?thesis
    by simp
qed

text \<open>
  C5 (idempotence): restoring a snapshot into the filesystem that the same
  restore has produced changes nothing.
\<close>

theorem restore_idempotent:
  assumes "is_snapshot S"
  shows "restoreSaveFiles eng (restoreSaveFiles eng fs (snapshot_json S)) (snapshot_json S)
           = restoreSaveFiles eng fs (snapshot_json S)"
  using place_all_idempotent [OF snapshot_parts_distinct [OF assms]]
  by (simp add: restoreSaveFiles_snapshot [OF assms])


theorem restore_idempotent_witness:
  "is_snapshot [(js ''/SaveData/slot1'', [9]), (js ''/save/data/slot1.dat'', [7, 7])]
   \<and> restoreSaveFiles example_engine example_fs
         (snapshot_json [(js ''/SaveData/slot1'', [9]), (js ''/save/data/slot1.dat'', [7, 7])])
       = Dir (fmupd (js ''Data.rsdk'') (File [1, 2, 3] 511)
           (fmupd (js ''SaveData'') (Dir (fmupd (js ''slot1'') (File [9] 511) fmempty))
           (fmupd (js ''save'')
              (Dir (fmupd (js ''data'')
                 (Dir (fmupd (js ''slot1.dat'') (File [7, 7] 511) fmempty)) fmempty))
            fmempty)))
   \<and> restoreSaveFiles example_engine
         (restoreSaveFiles example_engine example_fs
            (snapshot_json [(js ''/SaveData/slot1'', [9]), (js ''/save/data/slot1.dat'', [7, 7])]))
         (snapshot_json [(js ''/SaveData/slot1'', [9]), (js ''/save/data/slot1.dat'', [7, 7])])
       = restoreSaveFiles example_engine example_fs
           (snapshot_json [(js ''/SaveData/slot1'', [9]), (js ''/save/data/slot1.dat'', [7, 7])])"
proof -
  have snap: "is_snapshot [(js ''/SaveData/slot1'', [9]), (js ''/save/data/slot1.dat'', [7, 7])]"
    by code_simp
  have once: "restoreSaveFiles example_engine example_fs
         (snapshot_json [(js ''/SaveData/slot1'', [9]), (js ''/save/data/slot1.dat'', [7, 7])])
       = Dir (fmupd (js ''Data.rsdk'') (File [1, 2, 3] 511)
           (fmupd (js ''SaveData'') (Dir (fmupd (js ''slot1'') (File [9] 511) fmempty))
           (fmupd (js ''save'')
              (Dir (fmupd (js ''data'')
                 (Dir (fmupd (js ''slot1.dat'') (File [7, 7] 511) fmempty)) fmempty))
            fmempty)))"
    by code_simp
  show ?thesis
    using restore_idempotent [OF snap, of example_engine example_fs] snap once
    by simp
qed


section \<open>Properties of the collector\<close>

lemma fold_invariant:
  assumes "\<And>x acc. x \<in> set xs \<Longrightarrow> Q acc \<Longrightarrow> Q (f x acc)" and "Q acc"
  shows "Q (fold f xs acc)"
  using assms by (induction xs arbitrary: acc) auto

lemma no_skipped_key_update:
  "no_skipped_key acc \<Longrightarrow> \<not> is_skipped p \<Longrightarrow> no_skipped_key (AList.update p v acc)"
  by (simp add: no_skipped_key_def dom_update)

lemma walk_no_skipped_key:
  "no_skipped_key files \<Longrightarrow> no_skipped_key (walk rd n path files)"
proof (induction rd n path files rule: walk.induct)
  case (1 rd c m path files)
  then show ?case by simp
next
  case (2 rd d path files)
  show ?case
    unfolding walk.simps
  proof (rule fold_invariant [where Q = no_skipped_key], goal_cases)
    case (1 x acc)
    obtain name ch where x: "x = (name, ch)" by (cases x)
    show ?case
    proof (cases ch)
      case (File c m)
      with 1 x show ?thesis
        by (auto simp: Let_def split: option.splits intro!: no_skipped_key_update)
    next
      case (Dir d')
      with 1 x 2(1) show ?thesis
        by (auto simp: Let_def)
    qed
  next
    case 2
    then show ?case using "2.prems" by simp
  qed
qed

text \<open>
  C7 (filter invariant): whatever the filesystem holds and whatever the reads
  return, no key of the collected snapshot is an excluded prefix or starts with
  an excluded prefix followed by a slash.
\<close>

theorem filter_invariant:
  assumes "k \<in> set (Object_keys (collectSaveFiles rd fs))" and "p \<in> set SKIP_PATHS"
  shows "k \<noteq> p \<and> \<not> startsWith k (p @ js ''/'')"
proof -
  have "no_skipped_key (walk rd fs (js ''/'') [])"
    by (rule walk_no_skipped_key) (simp add: no_skipped_key_def)
  moreover have "k \<in> fst ` set (walk rd fs (js ''/'') [])"
    using assms(1) by (simp add: Object_keys_def collectSaveFiles_def enum_props_def set_own_props)
  ultimately have "\<not> is_skipped k"
    unfolding no_skipped_key_def by blast
  then show ?thesis
    using assms(2) by (auto simp: is_skipped_def list_ex_iff)
qed

theorem filter_invariant_witness:
  "js ''/SaveData/slot1'' \<in> set (Object_keys (collectSaveFiles example_read example_fs))
   \<and> js ''/Data.rsdk'' \<in> set SKIP_PATHS
   \<and> js ''/SaveData/slot1'' \<noteq> js ''/Data.rsdk''
   \<and> \<not> startsWith (js ''/SaveData/slot1'') (js ''/Data.rsdk'' @ js ''/'')"
proof -
  have a: "js ''/SaveData/slot1'' \<in> set (Object_keys (collectSaveFiles example_read example_fs))"
    by code_simp
  have b: "js ''/Data.rsdk'' \<in> set SKIP_PATHS"
    by (simp add: SKIP_PATHS_def)
  show ?thesis
    using filter_invariant [OF a b] a b by simp
qed

section \<open>Properties of export, import and autosave\<close>

text \<open>
  C10: when the collected snapshot is empty, \<open>doSave\<close> leaves the whole host as it
  is (no database is opened, no record written), and \<open>exportSave\<close> only adds its
  alert: the downloads and the stores are unchanged.
\<close>

theorem empty_snapshot_no_write:
  assumes "collectSaveFiles (FS_read h) (FS h) = JObj []"
  shows "doSave h = h
         \<and> exportSave h = Inr (h\<lparr>alerts := alerts h @ [js ''No save data to export.'']\<rparr>)"
  using assms
  by (simp add: doSave_def exportSave_def Object_keys_def enum_props_def own_props_def)

theorem empty_snapshot_no_write_witness:
  "collectSaveFiles (FS_read (example_host\<lparr>FS := Dir (fmupd (js ''Data.rsdk'') (File [1, 2, 3] 511) fmempty)\<rparr>))
       (FS (example_host\<lparr>FS := Dir (fmupd (js ''Data.rsdk'') (File [1, 2, 3] 511) fmempty)\<rparr>))
     = JObj []
   \<and> doSave (example_host\<lparr>FS := Dir (fmupd (js ''Data.rsdk'') (File [1, 2, 3] 511) fmempty)\<rparr>)
     = example_host\<lparr>FS := Dir (fmupd (js ''Data.rsdk'') (File [1, 2, 3] 511) fmempty)\<rparr>
   \<and> exportSave (example_host\<lparr>FS := Dir (fmupd (js ''Data.rsdk'') (File [1, 2, 3] 511) fmempty)\<rparr>)
     = Inr (example_host\<lparr>FS := Dir (fmupd (js ''Data.rsdk'') (File [1, 2, 3] 511) fmempty),
                         alerts := [js ''No save data to export.'']\<rparr>)"
proof -
  have "collectSaveFiles example_read (Dir (fmupd (js ''Data.rsdk'') (File [1, 2, 3] 511) fmempty))
          = JObj []"
    by code_simp
  then have a: "collectSaveFiles (FS_read (example_host\<lparr>FS := Dir (fmupd (js ''Data.rsdk'') (File [1, 2, 3] 511) fmempty)\<rparr>))
       (FS (example_host\<lparr>FS := Dir (fmupd (js ''Data.rsdk'') (File [1, 2, 3] 511) fmempty)\<rparr>))
     = JObj []"
    by (simp add: example_host_def)
  show ?thesis
    using empty_snapshot_no_write [OF a] a by (simp add: example_host_def)
qed

text \<open>
  What the guard of \<open>importSave\<close> does reject: a read error, and every decoded value
  that is neither an object nor an array (null, a boolean, a number, a string).
  The host is then returned as it was.
\<close>

lemma import_rejects_non_object:
  assumes "\<forall>xs. deserialize text \<noteq> JArr xs" and "\<forall>ps. deserialize text \<noteq> JObj ps"
  shows "importSave h (Inr text) = (h, Inl (Error (js ''Invalid save file'')))"
  using assms
  by (cases "deserialize text") (simp_all add: importSave_def truthy_def typeof_object_def)

lemma import_rejects_read_error: "importSave h (Inl e) = (h, Inl e)"
  by (simp add: importSave_def)

text \<open>
  C9, at the import of the text \<open>W1s3XV0=\<close>, the encoding of the JSON array
  \<open>[[7]]\<close>: the decoded value is an array, the test \<open>typeof data !== 'object'\<close> lets
  it pass, \<open>restoreSaveFiles\<close> creates the file \<open>/0\<close> with the byte 7, and
  \<open>onSuccess\<close> is called.
\<close>

theorem import_array_is_restored:
  "deserialize (js ''W1s3XV0='') = JArr [JArr [JNum 7 0]]
   \<and> snd (importSave example_host (Inr (js ''W1s3XV0=''))) = Inr ()
   \<and> FS example_host = Dir fmempty
   \<and> FS (fst (importSave example_host (Inr (js ''W1s3XV0=''))))
       = Dir (fmupd (js ''0'') (File [7] 511) fmempty)"
proof -
  have d: "deserialize (js ''W1s3XV0='') = JArr [JArr [JNum 7 0]]"
    by code_simp
  have r: "restoreSaveFiles example_engine (Dir fmempty) (JArr [JArr [JNum 7 0]])
             = Dir (fmupd (js ''0'') (File [7] 511) fmempty)"
    by code_simp
  have s: "serialize (JArr [JArr [JNum 7 0]]) = Inr (js ''W1s3XV0='')"
    by code_simp
  have k: "length STORAGE_KEY = 16"
    by (simp add: STORAGE_KEY_def js_def)
  show ?thesis
    using d r s k
    by (simp add: importSave_def truthy_def typeof_object_def saveToIndexedDB_def
          getIndexedDB_def saveToLocalStorage_def setItem_def usage_def example_host_def
          example_storage_def js_def)
qed

theorem import_array_is_restored_witness:
  "FS (fst (importSave example_host (Inr (js ''W1s3XV0='')))) \<noteq> FS example_host"
  using import_array_is_restored by simp

end
